theory Spec2Isabelle
  imports Main "HOL-Library.Word" "HOL-Library.AList"
begin

unbundle bit_operations_syntax

section \<open>Address manager of azure-container-networking (ipam/pool.go)\<close>

text \<open>
  A shallow embedding of \<^verbatim>\<open>src/ipam/pool.go\<close>: address pool identifiers, address
  spaces, pools and records, the epoch-based merge of a snapshot into the live space,
  and the request and release operations on pools and addresses.
\<close>

subsection \<open>Errors\<close>

text \<open>
  The error values of the package (declared in \<^verbatim>\<open>ipam/api.go\<close>) as one datatype.
  \<open>panicNilPointer\<close> is not a returned error: it stands for the Go run-time panic
  of a field access through a nil pointer, which ends the call.
\<close>

datatype error =
    errInvalidAddressSpace
  | errInvalidPoolId
  | errInvalidAddress
  | errInvalidScope
  | errAddressPoolExists
  | errAddressPoolNotFound
  | errAddressPoolNotInUse
  | errNoAvailableAddressPools
  | errAddressExists
  | errAddressNotFound
  | errAddressInUse
  | errAddressNotInUse
  | errNoAvailableAddresses
  | panicNilPointer

subsection \<open>Pool identifiers\<close>

text \<open>The struct \<^verbatim>\<open>addressPoolId\<close>.\<close>

record addressPoolId =
  AsId :: string
  Subnet :: string
  ChildSubnet :: string

text \<open>
  Go's \<^verbatim>\<open>strings.Split(s, sep)\<close> for a separator of one byte: the pieces of \<open>s\<close>
  between the separators, in order; a string without the separator (the empty string
  too) gives one piece.
\<close>

fun Split :: "string \<Rightarrow> char \<Rightarrow> string list" where
  "Split [] c = [[]]"
| "Split (x # xs) c =
     (if x = c then [] # Split xs c
      else (x # hd (Split xs c)) # tl (Split xs c))"

definition NewAddressPoolIdFromString :: "string \<Rightarrow> error + addressPoolId" where
  "NewAddressPoolIdFromString s =
     (let p = Split s CHR ''|'' in
      if length p > 3 then Inl errInvalidPoolId
      else Inr \<lparr> AsId = p ! 0,
                 Subnet = (if length p \<ge> 2 then p ! 1 else ''''),
                 ChildSubnet = (if length p = 3 then p ! 2 else '''') \<rparr>)"

text \<open>The method \<^verbatim>\<open>addressPoolId.String\<close>.\<close>

definition String :: "addressPoolId \<Rightarrow> string" where
  "String pid =
     (let s = AsId pid @ ''|'' @ Subnet pid in
      if ChildSubnet pid \<noteq> '''' then s @ ''|'' @ ChildSubnet pid else s)"

text \<open>
  A pool id is valid for the wire form when none of its three parts holds the
  separator; \<open>pipes s\<close> counts the separators of a string.
\<close>

definition validPoolId :: "addressPoolId \<Rightarrow> bool" where
  "validPoolId pid \<longleftrightarrow>
     CHR ''|'' \<notin> set (AsId pid) \<and> CHR ''|'' \<notin> set (Subnet pid) \<and>
     CHR ''|'' \<notin> set (ChildSubnet pid)"

definition pipes :: "string \<Rightarrow> nat" where
  "pipes s = length (filter (\<lambda>c. c = CHR ''|'') s)"

subsection \<open>The net package\<close>

type_synonym byte = "8 word"
type_synonym IP = "byte list"
type_synonym IPMask = "byte list"

record IPNet =
  IP :: IP
  Mask :: IPMask

definition v4InV6Prefix :: "byte list" where
  "v4InV6Prefix = [0, 0, 0, 0, 0, 0, 0, 0, 0, 0, 0xff, 0xff]"

definition To4 :: "IP \<Rightarrow> IP" where
  "To4 ip =
     (if length ip = 4 then ip
      else if length ip = 16 \<and> take 12 ip = v4InV6Prefix then drop 12 ip
      else [])"

definition To16 :: "IP \<Rightarrow> IP" where
  "To16 ip =
     (if length ip = 4 then v4InV6Prefix @ ip
      else if length ip = 16 then ip
      else [])"

definition allFF :: "byte list \<Rightarrow> bool" where
  "allFF b = list_all (\<lambda>c. c = 0xff) b"

definition IP_Mask :: "IP \<Rightarrow> IPMask \<Rightarrow> IP" where
  "IP_Mask ip msk =
     (let mask1 = (if length msk = 16 \<and> length ip = 4 \<and> allFF (take 12 msk)
                   then drop 12 msk else msk);
          ip1 = (if length mask1 = 4 \<and> length ip = 16 \<and> take 12 ip = v4InV6Prefix
                 then drop 12 ip else ip)
      in if length ip1 \<noteq> length mask1 then []
         else map2 (\<lambda>a m. a AND m) ip1 mask1)"

definition networkNumberAndMask :: "IPNet \<Rightarrow> IP \<times> IPMask" where
  "networkNumberAndMask n =
     (if To4 (IP n) = [] \<and> length (IP n) \<noteq> 16 then ([], [])
      else
        let ip = (if To4 (IP n) = [] then IP n else To4 (IP n)); m = Mask n in
        if length m = 4 then (if length ip \<noteq> 4 then ([], []) else (ip, m))
        else if length m = 16 then (if length ip = 4 then (ip, drop 12 m) else (ip, m))
        else ([], []))"

definition Contains :: "IPNet \<Rightarrow> IP \<Rightarrow> bool" where
  "Contains n ip =
     (case networkNumberAndMask n of (nn, m) \<Rightarrow>
        let ip1 = (if To4 ip \<noteq> [] then To4 ip else ip) in
        if length ip1 \<noteq> length nn then False
        else map2 (\<lambda>a b. a AND b) nn m = map2 (\<lambda>a b. a AND b) ip1 m)"

definition digits :: string where
  "digits = ''0123456789abcdef''"

fun uitoa :: "nat \<Rightarrow> string" where
  "uitoa n = (if n < 10 then [digits ! n] else uitoa (n div 10) @ [digits ! (n mod 10)])"

fun hexNat :: "nat \<Rightarrow> string" where
  "hexNat n = (if n < 16 then [digits ! n] else hexNat (n div 16) @ [digits ! (n mod 16)])"

definition hexString :: "byte list \<Rightarrow> string" where
  "hexString b = concat (map (\<lambda>c. [digits ! (unat c div 16), digits ! (unat c mod 16)]) b)"

fun join :: "string list \<Rightarrow> string \<Rightarrow> string" where
  "join [] sep = []"
| "join [x] sep = x"
| "join (x # y # xs) sep = x @ sep @ join (y # xs) sep"

fun groups16 :: "byte list \<Rightarrow> nat list" where
  "groups16 (a # b # r) = (unat a * 256 + unat b) # groups16 r"
| "groups16 r = []"

definition zeroRun :: "nat list \<Rightarrow> nat" where
  "zeroRun gs = length (takeWhile (\<lambda>g. g = 0) gs)"

fun bestRun :: "nat list \<Rightarrow> nat \<Rightarrow> nat \<times> nat \<Rightarrow> nat \<times> nat" where
  "bestRun [] i b = b"
| "bestRun (g # gs) i (e0, l) =
     (if zeroRun (g # gs) > l then bestRun gs (Suc i) (i, zeroRun (g # gs))
      else bestRun gs (Suc i) (e0, l))"

definition IP_String :: "IP \<Rightarrow> string" where
  "IP_String ip =
     (if length ip = 0 then ''<nil>''
      else if length (To4 ip) = 4 then join (map (\<lambda>c. uitoa (unat c)) (To4 ip)) ''.''
      else if length ip \<noteq> 16 then ''?'' @ hexString ip
      else
        let gs = groups16 ip in
        case bestRun gs 0 (0, 0) of (e0, l) \<Rightarrow>
          if l \<le> 1 then join (map hexNat gs) '':''
          else join (map hexNat (take e0 gs)) '':'' @ ''::'' @
               join (map hexNat (drop (e0 + l) gs)) '':'')"

definition byteBits :: "byte \<Rightarrow> bool list" where
  "byteBits c = map (bit c) [7, 6, 5, 4, 3, 2, 1, 0]"

definition simpleMaskLength :: "IPMask \<Rightarrow> nat option" where
  "simpleMaskLength m =
     (let bs = concat (map byteBits m) in
      if list_all (\<lambda>b. \<not> b) (dropWhile (\<lambda>b. b) bs) then Some (length (takeWhile (\<lambda>b. b) bs))
      else None)"

definition IPNet_String :: "IPNet \<Rightarrow> string" where
  "IPNet_String n =
     (case networkNumberAndMask n of (nn, m) \<Rightarrow>
        if nn = [] \<or> m = [] then ''<nil>''
        else (case simpleMaskLength m of
                None \<Rightarrow> IP_String nn @ ''/'' @ hexString m
              | Some l \<Rightarrow> IP_String nn @ ''/'' @ uitoa l))"

definition CIDRMask :: "nat \<Rightarrow> nat \<Rightarrow> IPMask" where
  "CIDRMask ones bits =
     (if bits \<noteq> 32 \<and> bits \<noteq> 128 then []
      else if ones > bits then []
      else map (\<lambda>i. if ones - 8 * i \<ge> 8 then 0xff else NOT (drop_bit (ones - 8 * i) (0xff :: byte)))
               [0 ..< bits div 8])"

definition isDigit :: "char \<Rightarrow> bool" where
  "isDigit c \<longleftrightarrow> c \<in> set ''0123456789''"

definition digitVal :: "char \<Rightarrow> nat" where
  "digitVal c = of_char c - 48"

fun dtoiLoop :: "string \<Rightarrow> nat \<Rightarrow> nat \<Rightarrow> nat \<times> nat \<times> bool" where
  "dtoiLoop [] n i = (n, i, True)"
| "dtoiLoop (c # s) n i =
     (if isDigit c
      then (if n * 10 + digitVal c \<ge> 0xFFFFFF then (0xFFFFFF, i, False)
            else dtoiLoop s (n * 10 + digitVal c) (Suc i))
      else (n, i, True))"

definition dtoi :: "string \<Rightarrow> nat \<times> nat \<times> bool" where
  "dtoi s =
     (case dtoiLoop s 0 0 of (n, i, ok) \<Rightarrow>
        if \<not> ok then (n, i, False)
        else if i = 0 then (0, 0, False)
        else (n, i, True))"

fun parseOctets :: "nat \<Rightarrow> string \<Rightarrow> byte list \<Rightarrow> byte list" where
  "parseOctets 0 s p = (if s \<noteq> [] then [] else v4InV6Prefix @ p)"
| "parseOctets (Suc k) s p =
     (if s = [] then []
      else if p \<noteq> [] \<and> hd s \<noteq> CHR ''.'' then []
      else
        let s1 = (if p \<noteq> [] then tl s else s) in
        case dtoi s1 of (n, c, ok) \<Rightarrow>
          if \<not> ok \<or> n > 0xFF then []
          else parseOctets k (drop c s1) (p @ [of_nat n]))"

definition parseIPv4 :: "string \<Rightarrow> IP" where
  "parseIPv4 s = parseOctets (Suc (Suc (Suc (Suc 0)))) s []"

definition hexVal :: "char \<Rightarrow> nat option" where
  "hexVal c =
     (if c \<in> set ''0123456789'' then Some (of_char c - 48)
      else if c \<in> set ''abcdef'' then Some (of_char c - 97 + 10)
      else if c \<in> set ''ABCDEF'' then Some (of_char c - 65 + 10)
      else None)"

fun xtoiLoop :: "string \<Rightarrow> nat \<Rightarrow> nat \<Rightarrow> nat \<times> nat \<times> bool" where
  "xtoiLoop [] n i = (n, i, True)"
| "xtoiLoop (c # s) n i =
     (case hexVal c of
        None \<Rightarrow> (n, i, True)
      | Some v \<Rightarrow>
          if n * 16 + v \<ge> 0xFFFFFF then (0, i, False)
          else xtoiLoop s (n * 16 + v) (Suc i))"

definition xtoi :: "string \<Rightarrow> nat \<times> nat \<times> bool" where
  "xtoi s =
     (case xtoiLoop s 0 0 of (n, i, ok) \<Rightarrow>
        if \<not> ok then (n, i, False)
        else if i = 0 then (0, i, False)
        else (n, i, True))"

definition expandEllipsis :: "byte list \<Rightarrow> string \<Rightarrow> nat option \<Rightarrow> IP" where
  "expandEllipsis p s ellipsis =
     (if s \<noteq> [] then []
      else if length p < 16 then
        (case ellipsis of
           None \<Rightarrow> []
         | Some e \<Rightarrow> take e p @ replicate (16 - length p) 0 @ drop e p)
      else if ellipsis \<noteq> None then []
      else p)"

fun parseGroups :: "nat \<Rightarrow> string \<Rightarrow> byte list \<Rightarrow> nat option \<Rightarrow> IP" where
  "parseGroups 0 s p ellipsis = expandEllipsis p s ellipsis"
| "parseGroups (Suc k) s p ellipsis =
     (case xtoi s of (n, c, ok) \<Rightarrow>
        if \<not> ok \<or> n > 0xFFFF then []
        else if c < length s \<and> s ! c = CHR ''.'' then
          (if ellipsis = None \<and> length p \<noteq> 12 then []
           else if length p + 4 > 16 then []
           else if parseIPv4 s = [] then []
           else expandEllipsis (p @ drop 12 (parseIPv4 s)) [] ellipsis)
        else
          let p1 = p @ [of_nat (n div 256), of_nat (n mod 256)]; s1 = drop c s in
          if s1 = [] then expandEllipsis p1 [] ellipsis
          else if hd s1 \<noteq> CHR '':'' \<or> length s1 = 1 then []
          else if hd (tl s1) = CHR '':'' then
            (if ellipsis \<noteq> None then []
             else if tl (tl s1) = [] then expandEllipsis p1 [] (Some (length p1))
             else parseGroups k (tl (tl s1)) p1 (Some (length p1)))
          else parseGroups k (tl s1) p1 ellipsis)"

definition parseIPv6 :: "string \<Rightarrow> IP" where
  "parseIPv6 s =
     (if length s \<ge> 2 \<and> take 2 s = ''::'' then
        (if drop 2 s = [] then replicate 16 0
         else parseGroups (Suc (Suc (Suc (Suc (Suc (Suc (Suc (Suc 0)))))))) (drop 2 s) [] (Some 0))
      else parseGroups (Suc (Suc (Suc (Suc (Suc (Suc (Suc (Suc 0)))))))) s [] None)"

fun ParseIP_scan :: "string \<Rightarrow> string \<Rightarrow> IP" where
  "ParseIP_scan [] s = []"
| "ParseIP_scan (c # r) s =
     (if c = CHR ''.'' then parseIPv4 s
      else if c = CHR '':'' then parseIPv6 s
      else ParseIP_scan r s)"

definition ParseIP :: "string \<Rightarrow> IP" where
  "ParseIP s = ParseIP_scan s s"

definition ParseCIDR :: "string \<Rightarrow> (IP \<times> IPNet) option" where
  "ParseCIDR s =
     (if CHR ''/'' \<notin> set s then None
      else
        let addr = takeWhile (\<lambda>c. c \<noteq> CHR ''/'') s;
            msk = tl (dropWhile (\<lambda>c. c \<noteq> CHR ''/'') s);
            ip4 = parseIPv4 addr;
            iplen = (if ip4 = [] then 16 else 4);
            ip = (if ip4 = [] then parseIPv6 addr else ip4)
        in case dtoi msk of (n, i, ok) \<Rightarrow>
             if ip = [] \<or> \<not> ok \<or> i \<noteq> length msk \<or> n > 8 * iplen then None
             else let m = CIDRMask n (8 * iplen)
                  in Some (ip, \<lparr> IP = IP_Mask ip m, Mask = m \<rparr>))"

fun incLoop :: "nat \<Rightarrow> IP \<Rightarrow> IP" where
  "incLoop 0 ip = ip"
| "incLoop (Suc j) ip =
     (let ip1 = ip[j := ip ! j + 1] in
      if ip1 ! j > 0 then ip1 else incLoop j ip1)"

definition inc :: "IP \<Rightarrow> IP" where
  "inc ip = incLoop (length ip) ip"

text \<open>
  Modelled from the spec: \<^verbatim>\<open>platform.GenerateAddress\<close> is not among the sources. The
  spec describes the gateway of a pool as the first usable host address of its subnet;
  the model combines the network address, in its 16-byte form, with the host id
  byte by byte. \<open>defaultGatewayHostId\<close> is \<^verbatim>\<open>net.ParseIP("::1")\<close>.
\<close>

definition defaultGatewayHostId :: IP where
  "defaultGatewayHostId = [0, 0, 0, 0, 0, 0, 0, 0, 0, 0, 0, 0, 0, 0, 0, 1]"

definition GenerateAddress :: "IPNet \<Rightarrow> IP \<Rightarrow> IP" where
  "GenerateAddress subnet hostId = map2 (\<lambda>a b. a OR b) (To16 (IP subnet)) hostId"

subsection \<open>Option maps\<close>

text \<open>
  An option map is a Go \<^verbatim>\<open>map[string]string\<close> that may be nil (\<open>None\<close>). Reading a key
  of a nil map, or a key the map does not hold, gives the empty string.

  Modelled from the spec: the keys \<^verbatim>\<open>OptInterfaceName\<close>, \<^verbatim>\<open>OptAddressID\<close>,
  \<^verbatim>\<open>OptAddressType\<close>, \<^verbatim>\<open>OptAddressTypeGateway\<close>, \<^verbatim>\<open>OptNetworkName\<close> and
  \<^verbatim>\<open>OptOverlayNetwork\<close> are declared in \<^verbatim>\<open>ipam/api.go\<close>, which is not among the
  sources; they take the names the spec's table of option keys gives them.
\<close>

type_synonym options = "(string \<rightharpoonup> string) option"

definition optGet :: "options \<Rightarrow> string \<Rightarrow> string" where
  "optGet options k =
     (case options of
        None \<Rightarrow> ''''
      | Some m \<Rightarrow> (case m k of None \<Rightarrow> '''' | Some v \<Rightarrow> v))"

definition OptInterfaceName :: string where
  "OptInterfaceName = ''interface-name''"

definition OptAddressID :: string where
  "OptAddressID = ''address-id''"

definition OptAddressType :: string where
  "OptAddressType = ''address-type''"

definition OptAddressTypeGateway :: string where
  "OptAddressTypeGateway = ''gateway''"

definition OptNetworkName :: string where
  "OptNetworkName = ''network-name''"

definition OptOverlayNetwork :: string where
  "OptOverlayNetwork = ''overlay-network''"

subsection \<open>Records, pools and spaces\<close>

text \<open>
  The struct \<^verbatim>\<open>addressRecord\<close>. The pool's two maps share their records through
  pointers, so the records live in a store and the maps hold references. A
  reference is never nil in the store's sense: a nil pointer is \<open>None\<close> where the
  code can hold one.

  Go's \<^verbatim>\<open>int\<close> (epochs, priorities, reference counts) is 64 bits wide on the
  platforms the plugin is built for. The fields are \<open>int\<close> here, with values from
  \<open>minInt\<close> to \<open>maxInt\<close>, and where the code counts (\<^verbatim>\<open>as.epoch + 1\<close> in
  \<^verbatim>\<open>merge\<close>, \<^verbatim>\<open>ap.RefCount++\<close> in \<^verbatim>\<open>requestPool\<close>, \<^verbatim>\<open>ap.RefCount--\<close> in
  \<^verbatim>\<open>releasePool\<close>) the model wraps around as the machine does: \<open>wrapInt\<close> is the
  two's-complement value of the low 64 bits.
\<close>

definition maxInt :: int where
  "maxInt = 2 ^ 63 - 1"

definition minInt :: int where
  "minInt = - (2 ^ 63)"

definition wrapInt :: "int \<Rightarrow> int" where
  "wrapInt x = (x + 2 ^ 63) mod 2 ^ 64 - 2 ^ 63"

type_synonym ref = nat

record addressRecord =
  ar_ID :: string
  ar_Addr :: IP
  ar_InUse :: bool
  ar_unhealthy :: bool
  ar_epoch :: int

record store =
  recs :: "ref \<Rightarrow> addressRecord"
  nextRef :: ref

definition alloc :: "store \<Rightarrow> addressRecord \<Rightarrow> ref \<times> store" where
  "alloc \<sigma> v = (nextRef \<sigma>, \<sigma>\<lparr> recs := (recs \<sigma>)(nextRef \<sigma> := v), nextRef := Suc (nextRef \<sigma>) \<rparr>)"

definition updRec :: "store \<Rightarrow> ref \<Rightarrow> (addressRecord \<Rightarrow> addressRecord) \<Rightarrow> store" where
  "updRec \<sigma> r f = \<sigma>\<lparr> recs := (recs \<sigma>)(r := f (recs \<sigma> r)) \<rparr>"

text \<open>
  The struct \<^verbatim>\<open>addressPool\<close>. A Go map from strings to pointers is an association
  list with distinct keys: \<open>map_of\<close> reads it, \<open>AList.update\<close> assigns a key,
  \<open>AList.delete\<close> deletes one, and a \<^verbatim>\<open>range\<close> loop visits the entries in the order
  of the list, which stands for the order the Go run time happens to choose. A pool is
  held by value in the map of its space, and a pointer to a pool is the key it is
  stored under. The back pointer \<^verbatim>\<open>as\<close> of a pool is either nil or the space that
  holds the pool: \<^verbatim>\<open>newAddressPool\<close> and \<^verbatim>\<open>merge\<close> are its only writers, and both
  store the space they put the pool in.
\<close>

datatype spacePtr = nilSpace | ownerSpace

record addressPool =
  ap_as :: spacePtr
  ap_Id :: string
  ap_IfName :: string
  ap_Subnet :: IPNet
  ap_Gateway :: IP
  ap_Addresses :: "(string \<times> ref) list"
  ap_addrsByID :: "(string \<times> ref) list"
  ap_IsIPv6 :: bool
  ap_Priority :: int
  ap_RefCount :: int
  ap_epoch :: int

text \<open>The struct \<^verbatim>\<open>addressSpace\<close>.\<close>

record addressSpace =
  as_Id :: string
  as_Scope :: int
  as_Pools :: "(string \<times> addressPool) list"
  as_epoch :: int

definition LocalScope :: int where
  "LocalScope = 0"

definition GlobalScope :: int where
  "GlobalScope = 1"

definition newAddressSpace :: "string \<Rightarrow> int \<Rightarrow> error + addressSpace" where
  "newAddressSpace spaceId scope =
     (if scope \<noteq> LocalScope \<and> scope \<noteq> GlobalScope then Inl errInvalidScope
      else Inr \<lparr> as_Id = spaceId, as_Scope = scope, as_Pools = [], as_epoch = 0 \<rparr>)"

definition isInUse :: "addressPool \<Rightarrow> bool" where
  "isInUse ap \<longleftrightarrow> ap_RefCount ap > 0"

subsection \<open>Merge\<close>

text \<open>
  The body of the loop over the records of a snapshot pool \<open>pv\<close> whose key the live
  space already holds (as pool \<open>ap\<close>): a record the live pool lacks is adopted, a record
  it has is reconfirmed.
\<close>

definition mergeAddress :: "int \<Rightarrow> string \<Rightarrow> ref \<Rightarrow> store \<times> addressPool \<Rightarrow> store \<times> addressPool" where
  "mergeAddress newEpoch ak av s =
     (case s of (\<sigma>, ap) \<Rightarrow>
        (case map_of (ap_Addresses ap) ak of
           None \<Rightarrow>
             (updRec \<sigma> av (\<lambda>r. r\<lparr> ar_epoch := newEpoch \<rparr>),
              ap\<lparr> ap_Addresses := AList.update ak av (ap_Addresses ap) \<rparr>)
         | Some ar \<Rightarrow>
             (updRec \<sigma> ar (\<lambda>r. r\<lparr> ar_epoch := newEpoch, ar_unhealthy := False \<rparr>), ap)))"

fun mergeAddresses :: "int \<Rightarrow> (string \<times> ref) list \<Rightarrow> store \<times> addressPool \<Rightarrow> store \<times> addressPool" where
  "mergeAddresses newEpoch [] s = s"
| "mergeAddresses newEpoch ((ak, av) # rest) s =
     mergeAddresses newEpoch rest (mergeAddress newEpoch ak av s)"

text \<open>
  The body of the loop over the pools of the snapshot. The state is the store, the
  live space, the snapshot and the flag \<^verbatim>\<open>usedNewEpoch\<close>. The loop over the records
  deletes each record from the snapshot pool and sets the flag once per record; the
  snapshot pool is deleted from the snapshot at the end of the body.
\<close>

definition mergePool ::
  "int \<Rightarrow> string \<Rightarrow> addressPool \<Rightarrow> store \<times> addressSpace \<times> addressSpace \<times> bool
     \<Rightarrow> store \<times> addressSpace \<times> addressSpace \<times> bool" where
  "mergePool newEpoch pk pv s =
     (case s of (\<sigma>, as, newas, usedNewEpoch) \<Rightarrow>
        (case map_of (as_Pools as) pk of
           None \<Rightarrow>
             (\<sigma>,
              as\<lparr> as_Pools := AList.update pk (pv\<lparr> ap_as := ownerSpace, ap_epoch := newEpoch \<rparr>) (as_Pools as) \<rparr>,
              newas\<lparr> as_Pools := AList.delete pk (as_Pools newas) \<rparr>,
              True)
         | Some ap \<Rightarrow>
             (case mergeAddresses newEpoch (ap_Addresses pv) (\<sigma>, ap) of (\<sigma>1, ap1) \<Rightarrow>
                (\<sigma>1,
                 as\<lparr> as_Pools := AList.update pk ap1 (as_Pools as) \<rparr>,
                 newas\<lparr> as_Pools := AList.delete pk (as_Pools newas) \<rparr>,
                 usedNewEpoch \<or> ap_Addresses pv \<noteq> []))))"

fun mergePools ::
  "int \<Rightarrow> (string \<times> addressPool) list \<Rightarrow> store \<times> addressSpace \<times> addressSpace \<times> bool
     \<Rightarrow> store \<times> addressSpace \<times> addressSpace \<times> bool" where
  "mergePools newEpoch [] s = s"
| "mergePools newEpoch ((pk, pv) # rest) s =
     mergePools newEpoch rest (mergePool newEpoch pk pv s)"

text \<open>The sweep: the body of the loop over the records of a stale pool.\<close>

definition sweepAddress :: "int \<Rightarrow> string \<Rightarrow> ref \<Rightarrow> store \<times> addressPool \<Rightarrow> store \<times> addressPool" where
  "sweepAddress asEpoch ak av s =
     (case s of (\<sigma>, pv) \<Rightarrow>
        if ar_epoch (recs \<sigma> av) = asEpoch then (\<sigma>, pv\<lparr> ap_epoch := asEpoch \<rparr>)
        else if ar_InUse (recs \<sigma> av) then
          (updRec \<sigma> av (\<lambda>r. r\<lparr> ar_unhealthy := True \<rparr>), pv\<lparr> ap_epoch := asEpoch \<rparr>)
        else (\<sigma>, pv\<lparr> ap_Addresses := AList.delete ak (ap_Addresses pv) \<rparr>))"

fun sweepAddresses :: "int \<Rightarrow> (string \<times> ref) list \<Rightarrow> store \<times> addressPool \<Rightarrow> store \<times> addressPool" where
  "sweepAddresses asEpoch [] s = s"
| "sweepAddresses asEpoch ((ak, av) # rest) s =
     sweepAddresses asEpoch rest (sweepAddress asEpoch ak av s)"

text \<open>The body of the loop over the pools of the live space.\<close>

definition sweepPool :: "string \<Rightarrow> addressPool \<Rightarrow> store \<times> addressSpace \<Rightarrow> store \<times> addressSpace" where
  "sweepPool pk pv s =
     (case s of (\<sigma>, as) \<Rightarrow>
        if ap_epoch pv < as_epoch as then
          (case sweepAddresses (as_epoch as) (ap_Addresses pv) (\<sigma>, pv) of (\<sigma>1, pv1) \<Rightarrow>
             if ap_epoch pv1 < as_epoch as \<and> \<not> isInUse pv1
             then (\<sigma>1, as\<lparr> as_Pools := AList.delete pk (as_Pools as) \<rparr>)
             else (\<sigma>1, as\<lparr> as_Pools := AList.update pk pv1 (as_Pools as) \<rparr>))
        else (\<sigma>, as))"

fun sweepPools :: "(string \<times> addressPool) list \<Rightarrow> store \<times> addressSpace \<Rightarrow> store \<times> addressSpace" where
  "sweepPools [] s = s"
| "sweepPools ((pk, pv) # rest) s = sweepPools rest (sweepPool pk pv s)"

text \<open>
  \<^verbatim>\<open>addressSpace.merge\<close>: the result is the store, the live space and the snapshot
  after the call.
\<close>

definition merge :: "store \<Rightarrow> addressSpace \<Rightarrow> addressSpace \<Rightarrow> store \<times> addressSpace \<times> addressSpace" where
  "merge \<sigma> as newas =
     (let newEpoch = wrapInt (as_epoch as + 1) in
      case mergePools newEpoch (as_Pools newas) (\<sigma>, as, newas, False) of
        (\<sigma>1, as1, newas1, usedNewEpoch) \<Rightarrow>
          let as2 = (if usedNewEpoch then as1\<lparr> as_epoch := newEpoch \<rparr> else as1) in
          case sweepPools (as_Pools as2) (\<sigma>1, as2) of
            (\<sigma>2, as3) \<Rightarrow> (\<sigma>2, as3, newas1))"

subsection \<open>Pools of a space\<close>

text \<open>
  \<^verbatim>\<open>addressSpace.newAddressPool\<close>. The result is the space, the pointer to the pool
  (its key) and the error; with \<open>errAddressPoolExists\<close> the pointer is the pool
  already there.
\<close>

definition newAddressPool ::
  "addressSpace \<Rightarrow> string \<Rightarrow> string \<Rightarrow> int \<Rightarrow> IPNet \<Rightarrow> addressSpace \<times> string \<times> error option" where
  "newAddressPool as ifName nwName priority subnet =
     (let pool = IPNet_String subnet in
      case map_of (as_Pools as) (pool @ nwName) of
        Some addrPool \<Rightarrow> (as, pool @ nwName, Some errAddressPoolExists)
      | None \<Rightarrow>
          (as\<lparr> as_Pools := AList.update (pool @ nwName)
                  \<lparr> ap_as = ownerSpace,
                    ap_Id = pool @ nwName,
                    ap_IfName = ifName,
                    ap_Subnet = subnet,
                    ap_Gateway = GenerateAddress subnet defaultGatewayHostId,
                    ap_Addresses = [],
                    ap_addrsByID = [],
                    ap_IsIPv6 = (To4 (IP subnet) = []),
                    ap_Priority = priority,
                    ap_RefCount = 0,
                    ap_epoch = as_epoch as \<rparr>
                  (as_Pools as) \<rparr>,
           pool @ nwName, None))"

text \<open>\<^verbatim>\<open>addressSpace.getAddressPool\<close>.\<close>

definition getAddressPool :: "addressSpace \<Rightarrow> string \<Rightarrow> error + addressPool" where
  "getAddressPool as poolId =
     (case map_of (as_Pools as) poolId of
        None \<Rightarrow> Inl errInvalidPoolId
      | Some ap \<Rightarrow> Inr ap)"

text \<open>
  \<^verbatim>\<open>addressPool.newAddressRecord\<close>. Beside \<open>errAddressExists\<close> the code also returns
  the record already there; no caller reads it, and the model returns the error alone.
\<close>

definition newAddressRecord :: "store \<Rightarrow> addressPool \<Rightarrow> IP \<Rightarrow> store \<times> addressPool \<times> (error + ref)" where
  "newAddressRecord \<sigma> ap addr =
     (let id1 = IP_String addr in
      if \<not> Contains (ap_Subnet ap) addr then (\<sigma>, ap, Inl errInvalidAddress)
      else case map_of (ap_Addresses ap) id1 of
        Some ar \<Rightarrow> (\<sigma>, ap, Inl errAddressExists)
      | None \<Rightarrow>
          (case alloc \<sigma> \<lparr> ar_ID = '''', ar_Addr = addr, ar_InUse = False,
                          ar_unhealthy = False, ar_epoch = ap_epoch ap \<rparr> of
             (ar, \<sigma>1) \<Rightarrow>
               (\<sigma>1, ap\<lparr> ap_Addresses := AList.update id1 ar (ap_Addresses ap) \<rparr>, Inr ar)))"

text \<open>
  \<^verbatim>\<open>populateIPAddresses\<close>. Its first loop lists the addresses of the subnet, from the
  network address upwards, until \<^verbatim>\<open>inc\<close> leaves the subnet; for a subnet that holds
  every address the counter wraps around and the loop does not end, so the list is
  \<open>None\<close> when the loop does not return.
\<close>

partial_function (option) ipRange :: "IPNet \<Rightarrow> IP \<Rightarrow> string list \<Rightarrow> string list option" where
  "ipRange ipnet ip ipList =
     (if Contains ipnet ip then ipRange ipnet (inc ip) (ipList @ [IP_String ip])
      else Some ipList)"

fun populateLoop ::
  "int \<Rightarrow> nat \<Rightarrow> string list \<Rightarrow> store \<times> addressPool \<Rightarrow> store \<times> addressPool \<times> error option" where
  "populateLoop lastIndex index [] s = (fst s, snd s, None)"
| "populateLoop lastIndex index (ip # rest) s =
     (case newAddressRecord (fst s) (snd s) (ParseIP ip) of
        (\<sigma>1, ap1, Inl err) \<Rightarrow> (\<sigma>1, ap1, Some err)
      | (\<sigma>1, ap1, Inr ar) \<Rightarrow>
          populateLoop lastIndex (Suc index) rest
            (if index = 0 \<or> index = 1 \<or> int index = lastIndex
             then updRec \<sigma>1 ar (\<lambda>r. r\<lparr> ar_InUse := True \<rparr>) else \<sigma>1,
             ap1\<lparr> ap_Addresses := AList.update ip ar (ap_Addresses ap1) \<rparr>))"

definition populateIPAddresses ::
  "store \<Rightarrow> addressPool \<Rightarrow> IP \<Rightarrow> IPNet \<Rightarrow> (store \<times> addressPool \<times> error option) option" where
  "populateIPAddresses \<sigma> ap ip ipnet =
     (case ipRange ipnet (IP_Mask ip (Mask ipnet)) [] of
        None \<Rightarrow> None
      | Some ipList \<Rightarrow> Some (populateLoop (int (length ipList) - 1) 0 ipList (\<sigma>, ap)))"

text \<open>
  \<^verbatim>\<open>addressSpace.getPool\<close>. The result is the store, the space, the pointer \<^verbatim>\<open>ap\<close>
  (\<open>None\<close> is nil) and the error. In the overlay branch the code declares a second
  \<^verbatim>\<open>err\<close> with \<^verbatim>\<open>:=\<close>: the error of \<^verbatim>\<open>newAddressPool\<close> and the result of
  \<^verbatim>\<open>populateIPAddresses\<close> go to that inner variable or are dropped, and the function
  returns the outer one, still nil.
\<close>

definition getPool ::
  "store \<Rightarrow> addressSpace \<Rightarrow> string \<Rightarrow> options
     \<Rightarrow> (store \<times> addressSpace \<times> string option \<times> error option) option" where
  "getPool \<sigma> as poolId options =
     (case map_of (as_Pools as) poolId of
        Some ap \<Rightarrow> Some (\<sigma>, as, Some poolId, None)
      | None \<Rightarrow>
          if options = None then Some (\<sigma>, as, None, None)
          else
            let nwName = optGet options OptNetworkName in
            if nwName = '''' then Some (\<sigma>, as, None, None)
            else
              (case map_of (as_Pools as) (poolId @ nwName) of
                 Some ap \<Rightarrow> Some (\<sigma>, as, Some (poolId @ nwName), None)
               | None \<Rightarrow>
                   if optGet options OptOverlayNetwork \<noteq> '''' then
                     (case ParseCIDR poolId of
                        None \<Rightarrow> Some (\<sigma>, as, None, Some errInvalidPoolId)
                      | Some (ip, ipnet) \<Rightarrow>
                          (case newAddressPool as '''' (optGet options OptNetworkName) 0 ipnet of
                             (as1, k, Some err) \<Rightarrow> Some (\<sigma>, as1, Some k, None)
                           | (as1, k, None) \<Rightarrow>
                               (case map_of (as_Pools as1) k of
                                  None \<Rightarrow> Some (\<sigma>, as1, Some k, None)
                                | Some ap \<Rightarrow>
                                    (case populateIPAddresses \<sigma> ap ip ipnet of
                                       None \<Rightarrow> None
                                     | Some (\<sigma>1, ap1, e) \<Rightarrow>
                                         Some (\<sigma>1,
                                               as1\<lparr> as_Pools := AList.update k ap1 (as_Pools as1) \<rparr>,
                                               Some k, None)))))
                   else Some (\<sigma>, as, None, Some errAddressPoolNotFound)))"

text \<open>
  The loop of \<^verbatim>\<open>requestPool\<close> over the pools of the space, for an empty pool id.
  The pointer \<^verbatim>\<open>ap\<close> is carried as the key and the pool it points to (the loop changes
  no pool).
\<close>

fun scanPools ::
  "string \<Rightarrow> bool \<Rightarrow> (string \<times> addressPool) list \<Rightarrow> (string \<times> addressPool) option
     \<Rightarrow> (string \<times> addressPool) option" where
  "scanPools ifName v6 [] ap = ap"
| "scanPools ifName v6 ((k, pool) # rest) ap =
     (if isInUse pool then scanPools ifName v6 rest ap
      else if ap_IsIPv6 pool \<noteq> v6 then scanPools ifName v6 rest ap
      else if ifName \<noteq> '''' \<and> ifName \<noteq> ap_IfName pool then scanPools ifName v6 rest ap
      else
        (case ap of
           None \<Rightarrow> scanPools ifName v6 rest (Some (k, pool))
         | Some cur \<Rightarrow>
             let ap1 = (if ap_Priority pool > ap_Priority (snd cur) then (k, pool) else cur);
                 ap2 = (if length (ap_Addresses pool) > length (ap_Addresses (snd ap1))
                        then (k, pool) else ap1)
             in scanPools ifName v6 rest (Some ap2)))"

text \<open>
  The end of \<^verbatim>\<open>requestPool\<close>: the reference count of the chosen pool goes up, and the
  final log line reads \<^verbatim>\<open>ap.Id\<close>, which panics when \<^verbatim>\<open>ap\<close> is nil.
\<close>

definition finishRequestPool ::
  "store \<Rightarrow> addressSpace \<Rightarrow> string option \<Rightarrow> error option \<Rightarrow> store \<times> addressSpace \<times> (error + string)" where
  "finishRequestPool \<sigma> as ap err =
     (case ap of
        None \<Rightarrow> (\<sigma>, as, Inl panicNilPointer)
      | Some k \<Rightarrow>
          (\<sigma>,
           as\<lparr> as_Pools := AList.map_entry k (\<lambda>p. p\<lparr> ap_RefCount := wrapInt (ap_RefCount p + 1) \<rparr>)
                               (as_Pools as) \<rparr>,
           (case err of None \<Rightarrow> Inr k | Some e \<Rightarrow> Inl e)))"

text \<open>
  \<^verbatim>\<open>addressSpace.requestPool\<close>. The result is \<open>None\<close> when the call does not return,
  else the store, the space and either the error or the pointer to the pool.
\<close>

definition requestPool ::
  "store \<Rightarrow> addressSpace \<Rightarrow> string \<Rightarrow> string \<Rightarrow> options \<Rightarrow> bool
     \<Rightarrow> (store \<times> addressSpace \<times> (error + string)) option" where
  "requestPool \<sigma> as poolId subPoolId options v6 =
     (if poolId \<noteq> '''' then
        (case getPool \<sigma> as poolId options of
           None \<Rightarrow> None
         | Some (\<sigma>1, as1, ap, Some err) \<Rightarrow> Some (\<sigma>1, as1, Inl err)
         | Some (\<sigma>1, as1, ap, None) \<Rightarrow> Some (finishRequestPool \<sigma>1 as1 ap None))
      else
        (case scanPools (optGet options OptInterfaceName) v6 (as_Pools as) None of
           None \<Rightarrow> Some (finishRequestPool \<sigma> as None (Some errNoAvailableAddressPools))
         | Some (k, pool) \<Rightarrow> Some (finishRequestPool \<sigma> as (Some k) None)))"

text \<open>\<^verbatim>\<open>addressSpace.releasePool\<close>.\<close>

definition releasePool :: "addressSpace \<Rightarrow> string \<Rightarrow> addressSpace \<times> error option" where
  "releasePool as poolId =
     (case map_of (as_Pools as) poolId of
        None \<Rightarrow> (as, Some errAddressPoolNotFound)
      | Some ap \<Rightarrow>
          if \<not> isInUse ap then (as, Some errAddressPoolNotInUse)
          else
            let ap1 = ap\<lparr> ap_RefCount := wrapInt (ap_RefCount ap - 1) \<rparr> in
            if ap_epoch ap1 < as_epoch as \<and> \<not> isInUse ap1
            then (as\<lparr> as_Pools := AList.delete poolId (as_Pools as) \<rparr>, None)
            else (as\<lparr> as_Pools := AList.update poolId ap1 (as_Pools as) \<rparr>, None))"

subsection \<open>Addresses of a pool\<close>

text \<open>
  \<^verbatim>\<open>addressPool.requestAddress\<close>. \<open>selectAddress\<close> is the first part, up to the
  comment ``If no address was found'': it ends the call with an error, or gives the
  store, the pointer \<^verbatim>\<open>ar\<close> (\<open>None\<close> is nil) and the id.
\<close>

definition selectAddress ::
  "store \<Rightarrow> addressPool \<Rightarrow> string \<Rightarrow> options \<Rightarrow> error + (store \<times> ref option \<times> string)" where
  "selectAddress \<sigma> ap address options =
     (let id1 = optGet options OptAddressID in
      if address \<noteq> '''' then
        (case map_of (ap_Addresses ap) address of
           None \<Rightarrow> Inl errAddressNotFound
         | Some ar \<Rightarrow>
             if ar_InUse (recs \<sigma> ar) \<and> (id1 = '''' \<or> id1 \<noteq> ar_ID (recs \<sigma> ar))
             then Inl errAddressInUse
             else Inr (\<sigma>, Some ar, id1))
      else if optGet options OptAddressType = OptAddressTypeGateway then
        (case alloc \<sigma> \<lparr> ar_ID = '''', ar_Addr = ap_Gateway ap, ar_InUse = False,
                        ar_unhealthy = False, ar_epoch = 0 \<rparr> of
           (ar, \<sigma>1) \<Rightarrow> Inr (\<sigma>1, Some ar, ''''))
      else if id1 \<noteq> '''' then Inr (\<sigma>, map_of (ap_addrsByID ap) id1, id1)
      else Inr (\<sigma>, None, id1))"

definition firstFree :: "store \<Rightarrow> (string \<times> ref) list \<Rightarrow> ref option" where
  "firstFree \<sigma> addrs = map_option snd (find (\<lambda>(k, ar). \<not> ar_InUse (recs \<sigma> ar)) addrs)"

definition requestAddress ::
  "store \<Rightarrow> addressPool \<Rightarrow> string \<Rightarrow> options \<Rightarrow> store \<times> addressPool \<times> (error + string)" where
  "requestAddress \<sigma> ap address options =
     (case selectAddress \<sigma> ap address options of
        Inl err \<Rightarrow> (\<sigma>, ap, Inl err)
      | Inr (\<sigma>1, found, id1) \<Rightarrow>
          (case (if found = None then firstFree \<sigma>1 (ap_Addresses ap) else found) of
             None \<Rightarrow> (\<sigma>1, ap, Inl errNoAvailableAddresses)
           | Some ar \<Rightarrow>
               (updRec \<sigma>1 ar (\<lambda>r. r\<lparr> ar_ID := id1, ar_InUse := True \<rparr>),
                (if id1 \<noteq> '''' then ap\<lparr> ap_addrsByID := AList.update id1 ar (ap_addrsByID ap) \<rparr> else ap),
                Inr (IPNet_String \<lparr> IP = ar_Addr (recs \<sigma>1 ar), Mask = Mask (ap_Subnet ap) \<rparr>))))"

text \<open>
  \<^verbatim>\<open>addressPool.releaseAddress\<close>. \<open>as\<close> is the space the pool is held in, which the
  back pointer of the pool names when it is not nil; with a nil back pointer the read
  of \<^verbatim>\<open>ap.as.epoch\<close> panics, after the record has been released.
\<close>

definition releaseAddress ::
  "store \<Rightarrow> addressSpace \<Rightarrow> addressPool \<Rightarrow> string \<Rightarrow> options \<Rightarrow> store \<times> addressPool \<times> error option" where
  "releaseAddress \<sigma> as ap address options =
     (let id1 = optGet options OptAddressID;
          ar = (if address \<noteq> '''' then map_of (ap_Addresses ap) address
                else if id1 \<noteq> '''' then map_of (ap_addrsByID ap) id1
                else None)
      in
      if address \<noteq> '''' \<and> ar = None \<and> address = IP_String (ap_Gateway ap) then (\<sigma>, ap, None)
      else
        (case ar of
           None \<Rightarrow> (\<sigma>, ap, Some errAddressNotFound)
         | Some r \<Rightarrow>
             let address1 = (if address \<noteq> '''' then address else IP_String (ar_Addr (recs \<sigma> r))) in
             if id1 \<noteq> '''' \<and> id1 \<noteq> ar_ID (recs \<sigma> r) then (\<sigma>, ap, Some errAddressNotFound)
             else if \<not> ar_InUse (recs \<sigma> r) then (\<sigma>, ap, Some errAddressNotInUse)
             else
               let ap1 = (if ar_ID (recs \<sigma> r) \<noteq> ''''
                          then ap\<lparr> ap_addrsByID := AList.delete (ar_ID (recs \<sigma> r)) (ap_addrsByID ap) \<rparr>
                          else ap);
                   \<sigma>1 = updRec \<sigma> r (\<lambda>x. x\<lparr> ar_ID := '''', ar_InUse := False \<rparr>)
               in
               (case ap_as ap of
                  nilSpace \<Rightarrow> (\<sigma>1, ap1, Some panicNilPointer)
                | ownerSpace \<Rightarrow>
                    if ar_epoch (recs \<sigma>1 r) < as_epoch as
                    then (\<sigma>1, ap1\<lparr> ap_Addresses := AList.delete address1 (ap_Addresses ap1) \<rparr>, None)
                    else (\<sigma>1, ap1, None))))"

subsection \<open>Snapshots and live spaces\<close>

text \<open>
  A source builds a snapshot with the three constructors alone (\<^verbatim>\<open>azureSource.refresh\<close>
  in \<^verbatim>\<open>ipam/azure.go\<close>): \<^verbatim>\<open>newAddressSpace\<close>, then \<^verbatim>\<open>newAddressPool\<close> for each
  subnet and \<^verbatim>\<open>newAddressRecord\<close> for each of its addresses, and it gives up at the
  first error. \<open>built n \<sigma> newas\<close> holds for the spaces that such a sequence of
  successful calls builds: \<open>\<sigma>\<close> is the store at the end, and \<open>n\<close> is the next
  reference of the store when the sequence began, so that the records of the snapshot
  are the references from \<open>n\<close> on. \<^verbatim>\<open>newAddressRecord\<close> changes the pool through the
  pointer that the space holds; the model writes the pool back under its key.
\<close>

inductive built :: "ref \<Rightarrow> store \<Rightarrow> addressSpace \<Rightarrow> bool" where
  new_space: "newAddressSpace spaceId scope = Inr newas \<Longrightarrow> built (nextRef \<sigma>) \<sigma> newas"
| new_pool: "built n \<sigma> newas \<Longrightarrow>
             newAddressPool newas ifName nwName priority subnet = (newas1, pk, None) \<Longrightarrow>
             built n \<sigma> newas1"
| new_record: "built n \<sigma> newas \<Longrightarrow> map_of (as_Pools newas) pk = Some ap \<Longrightarrow>
               newAddressRecord \<sigma> ap addr = (\<sigma>1, ap1, Inr ar) \<Longrightarrow>
               built n \<sigma>1 (newas\<lparr> as_Pools := AList.update pk ap1 (as_Pools newas) \<rparr>)"

text \<open>
  \<^verbatim>\<open>setAddressSpace\<close> keeps the first snapshot of an id as the live space and merges
  every later one into it. \<open>live m as\<close> holds for the spaces reached from a first
  snapshot by \<open>m\<close> merges and any number of requests and releases of pools and of
  addresses; the operations on an address change the pool through the pointer that the
  space holds. The stores are left free: what is proved from \<open>live\<close> is the range of
  the epoch, which no store decides.
\<close>

inductive live :: "nat \<Rightarrow> addressSpace \<Rightarrow> bool" where
  first: "built n \<sigma> as \<Longrightarrow> live 0 as"
| merged: "live m as \<Longrightarrow> merge \<sigma> as newas = (\<sigma>1, as1, newas1) \<Longrightarrow> live (Suc m) as1"
| pool_requested:
    "live m as \<Longrightarrow> requestPool \<sigma> as poolId subPoolId options v6 = Some (\<sigma>1, as1, res) \<Longrightarrow>
     live m as1"
| pool_released: "live m as \<Longrightarrow> releasePool as poolId = (as1, err) \<Longrightarrow> live m as1"
| address_requested:
    "live m as \<Longrightarrow> map_of (as_Pools as) pk = Some ap \<Longrightarrow>
     requestAddress \<sigma> ap address options = (\<sigma>1, ap1, res) \<Longrightarrow>
     live m (as\<lparr> as_Pools := AList.update pk ap1 (as_Pools as) \<rparr>)"
| address_released:
    "live m as \<Longrightarrow> map_of (as_Pools as) pk = Some ap \<Longrightarrow>
     releaseAddress \<sigma> as ap address options = (\<sigma>1, ap1, err) \<Longrightarrow>
     live m (as\<lparr> as_Pools := AList.update pk ap1 (as_Pools as) \<rparr>)"

subsection \<open>Example states\<close>

text \<open>
  Concrete states for the closed theorems below: a store built from a list of records
  (reference \<open>i\<close> is the \<open>i\<close>-th record), and pools on the subnets 10.0.0.0/24
  and 10.1.0.0/24.
\<close>

definition emptyRecord :: addressRecord where
  "emptyRecord = \<lparr> ar_ID = '''', ar_Addr = [], ar_InUse = False, ar_unhealthy = False, ar_epoch = 0 \<rparr>"

definition storeOf :: "addressRecord list \<Rightarrow> store" where
  "storeOf xs = \<lparr> recs = (\<lambda>r. if r < length xs then xs ! r else emptyRecord), nextRef = length xs \<rparr>"

definition freeRecord :: "IP \<Rightarrow> int \<Rightarrow> addressRecord" where
  "freeRecord a e = \<lparr> ar_ID = '''', ar_Addr = a, ar_InUse = False, ar_unhealthy = False, ar_epoch = e \<rparr>"

definition heldRecord :: "string \<Rightarrow> IP \<Rightarrow> int \<Rightarrow> addressRecord" where
  "heldRecord x a e = \<lparr> ar_ID = x, ar_Addr = a, ar_InUse = True, ar_unhealthy = False, ar_epoch = e \<rparr>"

definition examplePool :: "string \<Rightarrow> string \<Rightarrow> IPNet \<Rightarrow> IP \<Rightarrow> int \<Rightarrow> (string \<times> ref) list \<Rightarrow> addressPool" where
  "examplePool k ifName subnet gw priority addrs =
     \<lparr> ap_as = ownerSpace, ap_Id = k, ap_IfName = ifName, ap_Subnet = subnet, ap_Gateway = gw,
       ap_Addresses = addrs, ap_addrsByID = [], ap_IsIPv6 = False, ap_Priority = priority,
       ap_RefCount = 0, ap_epoch = 0 \<rparr>"

definition net10_0 :: IPNet where
  "net10_0 = \<lparr> IP = [10, 0, 0, 0], Mask = [255, 255, 255, 0] \<rparr>"

definition net10_1 :: IPNet where
  "net10_1 = \<lparr> IP = [10, 1, 0, 0], Mask = [255, 255, 255, 0] \<rparr>"

definition gw10_0 :: IP where
  "gw10_0 = v4InV6Prefix @ [10, 0, 0, 1]"

definition gw10_1 :: IP where
  "gw10_1 = v4InV6Prefix @ [10, 1, 0, 1]"

definition emptySpace :: addressSpace where
  "emptySpace = \<lparr> as_Id = ''local'', as_Scope = 0, as_Pools = [], as_epoch = 0 \<rparr>"

text \<open>
  Two free pools for the request of any pool: the pool of the secondary interface has
  the higher priority and one address, the pool of the primary interface has the lower
  priority and two addresses.
\<close>

definition twoPoolStore :: store where
  "twoPoolStore = storeOf
     [freeRecord (v4InV6Prefix @ [10, 1, 0, 4]) 0,
      freeRecord (v4InV6Prefix @ [10, 0, 0, 4]) 0,
      freeRecord (v4InV6Prefix @ [10, 0, 0, 5]) 0]"

definition secondaryPool :: addressPool where
  "secondaryPool = examplePool ''10.1.0.0/24'' ''eth1'' net10_1 gw10_1 1 [(''10.1.0.4'', 0)]"

definition primaryPool :: addressPool where
  "primaryPool = examplePool ''10.0.0.0/24'' ''eth0'' net10_0 gw10_0 0 [(''10.0.0.4'', 1), (''10.0.0.5'', 2)]"

definition twoPoolSpace :: addressSpace where
  "twoPoolSpace = \<lparr> as_Id = ''local'', as_Scope = 0,
                     as_Pools = [(''10.1.0.0/24'', secondaryPool), (''10.0.0.0/24'', primaryPool)],
                     as_epoch = 0 \<rparr>"

text \<open>Option maps of the callers: a reservation id, the gateway request, an overlay network.\<close>

definition idOptions :: "string \<Rightarrow> options" where
  "idOptions x = Some [OptAddressID \<mapsto> x]"

definition gatewayOptions :: options where
  "gatewayOptions = Some [OptAddressType \<mapsto> OptAddressTypeGateway]"

definition overlayOptions :: options where
  "overlayOptions = Some [OptNetworkName \<mapsto> ''net1'', OptOverlayNetwork \<mapsto> ''overlay'']"

text \<open>
  A pool with one address held by the client \<open>c0\<close> and one free address, and the two
  requests of the free address under the id \<open>c1\<close>.
\<close>

definition heldStore :: store where
  "heldStore = storeOf
     [heldRecord ''c0'' (v4InV6Prefix @ [10, 0, 0, 4]) 0,
      freeRecord (v4InV6Prefix @ [10, 0, 0, 5]) 0]"

definition heldPool :: addressPool where
  "heldPool = (examplePool ''10.0.0.0/24'' ''eth0'' net10_0 gw10_0 0 [(''10.0.0.4'', 0), (''10.0.0.5'', 1)])
     \<lparr> ap_addrsByID := [(''c0'', 0)], ap_RefCount := 1 \<rparr>"

definition firstRequest :: "store \<times> addressPool \<times> (error + string)" where
  "firstRequest = requestAddress heldStore heldPool ''10.0.0.5'' (idOptions ''c1'')"

definition secondRequest :: "store \<times> addressPool \<times> (error + string)" where
  "secondRequest = requestAddress (fst firstRequest) (fst (snd firstRequest)) ''10.0.0.5'' (idOptions ''c1'')"

text \<open>
  The overlay pool of 10.0.0.0/30 as \<^verbatim>\<open>populateIPAddresses\<close> leaves it: four records,
  the first, second and last in use with no id; the gateway 10.0.0.1 is one of them.
  \<open>gatewayRequested\<close> and \<open>gatewayReleased\<close> are the request of the gateway and the
  release of the gateway address that follows it.
\<close>

definition net10_30 :: IPNet where
  "net10_30 = \<lparr> IP = [10, 0, 0, 0], Mask = [255, 255, 255, 252] \<rparr>"

definition overlayStore :: store where
  "overlayStore = storeOf
     [heldRecord '''' (v4InV6Prefix @ [10, 0, 0, 0]) 0,
      heldRecord '''' (v4InV6Prefix @ [10, 0, 0, 1]) 0,
      freeRecord (v4InV6Prefix @ [10, 0, 0, 2]) 0,
      heldRecord '''' (v4InV6Prefix @ [10, 0, 0, 3]) 0]"

definition overlayPool :: addressPool where
  "overlayPool = (examplePool ''10.0.0.0/30net1'' '''' net10_30 gw10_0 0
       [(''10.0.0.0'', 0), (''10.0.0.1'', 1), (''10.0.0.2'', 2), (''10.0.0.3'', 3)])
     \<lparr> ap_RefCount := 1 \<rparr>"

definition overlaySpace :: addressSpace where
  "overlaySpace = \<lparr> as_Id = ''local'', as_Scope = 0,
                     as_Pools = [(''10.0.0.0/30net1'', overlayPool)], as_epoch = 0 \<rparr>"

definition gatewayRequested :: "store \<times> addressPool \<times> (error + string)" where
  "gatewayRequested = requestAddress overlayStore overlayPool '''' gatewayOptions"

definition gatewayReleased :: "store \<times> addressPool \<times> error option" where
  "gatewayReleased =
     releaseAddress (fst gatewayRequested) overlaySpace (fst (snd gatewayRequested)) ''10.0.0.1'' None"

text \<open>
  A live space and a snapshot for the merge. The live space holds the pool
  10.0.0.0/24 with 10.0.0.4 held by \<open>c0\<close> and 10.0.0.5 free. The snapshot lists
  10.0.0.5 alone in that pool (a record of its own, reference 2) and brings the new
  pool 10.1.0.0/24 with the address 10.1.0.4 (reference 3).
\<close>

definition mergeStore :: store where
  "mergeStore = storeOf
     [heldRecord ''c0'' (v4InV6Prefix @ [10, 0, 0, 4]) 0,
      freeRecord (v4InV6Prefix @ [10, 0, 0, 5]) 0,
      freeRecord (v4InV6Prefix @ [10, 0, 0, 5]) 0,
      freeRecord (v4InV6Prefix @ [10, 1, 0, 4]) 0]"

definition liveSpace :: addressSpace where
  "liveSpace = \<lparr> as_Id = ''local'', as_Scope = 0,
                  as_Pools = [(''10.0.0.0/24'', heldPool)], as_epoch = 0 \<rparr>"

definition snapshotPoolA :: addressPool where
  "snapshotPoolA = examplePool ''10.0.0.0/24'' ''eth0'' net10_0 gw10_0 0 [(''10.0.0.5'', 2)]"

definition snapshotPoolB :: addressPool where
  "snapshotPoolB = examplePool ''10.1.0.0/24'' ''eth1'' net10_1 gw10_1 1 [(''10.1.0.4'', 3)]"

definition snapshot :: addressSpace where
  "snapshot = \<lparr> as_Id = ''local'', as_Scope = 0,
                 as_Pools = [(''10.0.0.0/24'', snapshotPoolA), (''10.1.0.0/24'', snapshotPoolB)],
                 as_epoch = 0 \<rparr>"

text \<open>
  The merge of a snapshot without pools into the live space, and the release of
  10.0.0.4 by its holder that follows.
\<close>

definition mergedEmpty :: "store \<times> addressSpace \<times> addressSpace" where
  "mergedEmpty = merge mergeStore liveSpace emptySpace"

definition releasedAfterEmpty :: "store \<times> addressPool \<times> error option" where
  "releasedAfterEmpty =
     releaseAddress (fst mergedEmpty) (fst (snd mergedEmpty)) heldPool ''10.0.0.4'' (idOptions ''c0'')"

subsection \<open>Vocabulary of the statements about merge\<close>

text \<open>
  A snapshot brings something to adopt or to reconfirm when it holds a pool the live
  space lacks (the pool is adopted) or a pool with at least one record (each record
  is adopted or reconfirmed). This is a condition on the two spaces before the merge.
\<close>

definition adoptsOrReconfirms :: "addressSpace \<Rightarrow> addressSpace \<Rightarrow> bool" where
  "adoptsOrReconfirms as newas \<longleftrightarrow>
     list_ex (\<lambda>(pk, pv). map_of (as_Pools as) pk = None \<or> ap_Addresses pv \<noteq> []) (as_Pools newas)"

text \<open>
  \<open>lookupAddr as pk a\<close> is the record that the pool \<open>pk\<close> of the space holds for the
  address \<open>a\<close>, and \<open>poolRefs p\<close> lists the records a pool refers to.
\<close>

definition lookupAddr :: "addressSpace \<Rightarrow> string \<Rightarrow> string \<Rightarrow> ref option" where
  "lookupAddr as pk a =
     (case map_of (as_Pools as) pk of None \<Rightarrow> None | Some p \<Rightarrow> map_of (ap_Addresses p) a)"

definition poolRefs :: "addressPool \<Rightarrow> ref list" where
  "poolRefs p = map snd (ap_Addresses p)"

text \<open>
  The same, read off the states before and after the merge. A pool of the snapshot
  has been adopted when the live space lacked its key and holds, after the merge, that
  very pool with the back pointer set and the epoch of the space. A record of a
  snapshot pool whose key the live space held has been adopted when the live pool
  lacked the address and holds the snapshot's record afterwards, stamped with the
  epoch of the space; it has been reconfirmed when the live pool held the address and
  still holds the same record, stamped with the epoch of the space and healthy.
  \<open>adoptedOrReconfirmed\<close> says that this happened to some pool or record of the
  snapshot, \<open>snapshotMerged\<close> that it happened to every one of them.
\<close>

definition poolAdopted :: "addressSpace \<Rightarrow> addressSpace \<Rightarrow> string \<Rightarrow> addressPool \<Rightarrow> bool" where
  "poolAdopted as as1 pk pv \<longleftrightarrow>
     map_of (as_Pools as) pk = None \<and>
     map_of (as_Pools as1) pk = Some (pv\<lparr> ap_as := ownerSpace, ap_epoch := as_epoch as1 \<rparr>)"

definition recordAdopted ::
  "addressSpace \<Rightarrow> store \<Rightarrow> addressSpace \<Rightarrow> string \<Rightarrow> string \<Rightarrow> ref \<Rightarrow> bool" where
  "recordAdopted as \<sigma>1 as1 pk ak av \<longleftrightarrow>
     map_of (as_Pools as) pk \<noteq> None \<and> lookupAddr as pk ak = None \<and>
     lookupAddr as1 pk ak = Some av \<and> ar_epoch (recs \<sigma>1 av) = as_epoch as1"

definition recordReconfirmed ::
  "addressSpace \<Rightarrow> store \<Rightarrow> addressSpace \<Rightarrow> string \<Rightarrow> string \<Rightarrow> bool" where
  "recordReconfirmed as \<sigma>1 as1 pk ak \<longleftrightarrow>
     (case lookupAddr as pk ak of
        None \<Rightarrow> False
      | Some ar \<Rightarrow> lookupAddr as1 pk ak = Some ar \<and> ar_epoch (recs \<sigma>1 ar) = as_epoch as1 \<and>
                   \<not> ar_unhealthy (recs \<sigma>1 ar))"

definition adoptedOrReconfirmed ::
  "addressSpace \<Rightarrow> addressSpace \<Rightarrow> store \<Rightarrow> addressSpace \<Rightarrow> bool" where
  "adoptedOrReconfirmed as newas \<sigma>1 as1 \<longleftrightarrow>
     list_ex (\<lambda>(pk, pv). poolAdopted as as1 pk pv \<or>
                list_ex (\<lambda>(ak, av). recordAdopted as \<sigma>1 as1 pk ak av \<or> recordReconfirmed as \<sigma>1 as1 pk ak)
                  (ap_Addresses pv))
       (as_Pools newas)"

definition snapshotMerged ::
  "addressSpace \<Rightarrow> addressSpace \<Rightarrow> store \<Rightarrow> addressSpace \<Rightarrow> bool" where
  "snapshotMerged as newas \<sigma>1 as1 \<longleftrightarrow>
     list_all (\<lambda>(pk, pv).
         if map_of (as_Pools as) pk = None then poolAdopted as as1 pk pv
         else list_all (\<lambda>(ak, av). recordAdopted as \<sigma>1 as1 pk ak av \<or> recordReconfirmed as \<sigma>1 as1 pk ak)
                (ap_Addresses pv))
       (as_Pools newas)"

text \<open>
  The association lists stand for Go maps, whose keys are unique: \<open>uniqueKeys\<close> says
  so of the pools of a space and of the addresses of each pool.
\<close>

definition uniqueKeys :: "addressSpace \<Rightarrow> bool" where
  "uniqueKeys as \<longleftrightarrow>
     distinct (map fst (as_Pools as)) \<and>
     list_all (\<lambda>(k, p). distinct (map fst (ap_Addresses p))) (as_Pools as)"

section \<open>Properties\<close>

subsection \<open>Machine integers\<close>

lemma wrapInt_id: "minInt \<le> x \<Longrightarrow> x \<le> maxInt \<Longrightarrow> wrapInt x = x"
  by (simp add: wrapInt_def minInt_def maxInt_def)

lemma wrapInt_succ: "minInt \<le> x \<Longrightarrow> x < maxInt \<Longrightarrow> wrapInt (x + 1) = x + 1"
  by (rule wrapInt_id) (simp_all add: minInt_def maxInt_def)

lemma wrapInt_one: "wrapInt 1 = 1"
  by (simp add: wrapInt_def)

lemma wrapInt_max: "wrapInt (maxInt + 1) = minInt"
  by (simp add: wrapInt_def minInt_def maxInt_def)

subsection \<open>Pool-id wire form\<close>

lemma Split_nonempty: "Split s c \<noteq> []"
  by (induction s) auto

lemma Split_no_sep: "c \<notin> set s \<Longrightarrow> Split s c = [s]"
  by (induction s) auto

lemma Split_append_sep: "c \<notin> set a \<Longrightarrow> Split (a @ c # r) c = a # Split r c"
  by (induction a) auto

lemma length_Split: "length (Split s c) = Suc (length (filter (\<lambda>x. x = c) s))"
proof (induction s)
  case Nil
  show ?case by simp
next
  case (Cons x xs)
  have "Split xs c \<noteq> []" by (rule Split_nonempty)
  then have "length (tl (Split xs c)) = length (Split xs c) - 1" by simp
  with Cons show ?case by simp
qed

text \<open>
  C9. Parsing the string produced by formatting a valid pool id gives the pool id
  back, and parsing a string with three or more pipe separators fails with
  \<open>errInvalidPoolId\<close>.
\<close>

theorem poolId_roundtrip:
  "(validPoolId pid \<longrightarrow> NewAddressPoolIdFromString (String pid) = Inr pid) \<and>
   (3 \<le> pipes s \<longrightarrow> NewAddressPoolIdFromString s = Inl errInvalidPoolId)"
proof (intro conjI impI)
  assume v: "validPoolId pid"
  then have a: "CHR ''|'' \<notin> set (AsId pid)" and b: "CHR ''|'' \<notin> set (Subnet pid)"
    and c: "CHR ''|'' \<notin> set (ChildSubnet pid)"
    by (simp_all add: validPoolId_def)
  show "NewAddressPoolIdFromString (String pid) = Inr pid"
  proof (cases "ChildSubnet pid = ''''")
    case True
    have "Split (AsId pid @ CHR ''|'' # Subnet pid) CHR ''|'' = [AsId pid, Subnet pid]"
      using a b by (simp add: Split_append_sep Split_no_sep)
    then show ?thesis
      using True by (simp add: NewAddressPoolIdFromString_def String_def)
  next
    case False
    have "Split (AsId pid @ CHR ''|'' # Subnet pid @ CHR ''|'' # ChildSubnet pid) CHR ''|''
            = [AsId pid, Subnet pid, ChildSubnet pid]"
      using a b c by (simp add: Split_append_sep Split_no_sep)
    then show ?thesis
      using False by (simp add: NewAddressPoolIdFromString_def String_def)
  qed
next
  assume "3 \<le> pipes s"
  then have "length (Split s CHR ''|'') > 3"
    by (simp add: length_Split pipes_def)
  then show "NewAddressPoolIdFromString s = Inl errInvalidPoolId"
    by (simp add: NewAddressPoolIdFromString_def)
qed

theorem poolId_roundtrip_witness:
  "validPoolId \<lparr> AsId = ''local'', Subnet = ''10.0.0.0/24'', ChildSubnet = '''' \<rparr> \<and>
   NewAddressPoolIdFromString (String \<lparr> AsId = ''local'', Subnet = ''10.0.0.0/24'', ChildSubnet = '''' \<rparr>)
     = Inr \<lparr> AsId = ''local'', Subnet = ''10.0.0.0/24'', ChildSubnet = '''' \<rparr> \<and>
   3 \<le> pipes ''a|b|c|d'' \<and>
   NewAddressPoolIdFromString ''a|b|c|d'' = Inl errInvalidPoolId"
  using poolId_roundtrip [of "\<lparr> AsId = ''local'', Subnet = ''10.0.0.0/24'', ChildSubnet = '''' \<rparr>" "''a|b|c|d''"]
  by (simp add: validPoolId_def pipes_def)

subsection \<open>Evaluation on concrete inputs\<close>

lemmas net_eval = dtoi_def isDigit_def digitVal_def v4InV6Prefix_def parseIPv4_def
  CIDRMask_def IP_Mask_def allFF_def To4_def To16_def Contains_def networkNumberAndMask_def
  IP_String_def digits_def IPNet_String_def simpleMaskLength_def byteBits_def ParseIP_def inc_def

lemmas example_defs = storeOf_def freeRecord_def heldRecord_def examplePool_def emptyRecord_def
  net10_0_def net10_1_def net10_30_def gw10_0_def gw10_1_def emptySpace_def
  idOptions_def gatewayOptions_def overlayOptions_def
  OptInterfaceName_def OptAddressID_def OptAddressType_def OptAddressTypeGateway_def
  OptNetworkName_def OptOverlayNetwork_def

lemmas address_defs = requestAddress_def selectAddress_def releaseAddress_def firstFree_def
  optGet_def updRec_def alloc_def Let_def

subsection \<open>Lookup of a pool by id\<close>

text \<open>
  C8 (as the code has it). The lookup of a pool by id that \<^verbatim>\<open>getAddressPool\<close> does for
  get-pool-info, request-address and release-address fails, for an id the space does
  not hold, with \<open>errInvalidPoolId\<close>.
\<close>

theorem getAddressPool_unknown:
  "map_of (as_Pools as) poolId = None \<Longrightarrow> getAddressPool as poolId = Inl errInvalidPoolId"
  by (simp add: getAddressPool_def)

theorem getAddressPool_unknown_witness:
  "map_of (as_Pools emptySpace) ''10.0.0.0/24'' = None \<and>
   getAddressPool emptySpace ''10.0.0.0/24'' = Inl errInvalidPoolId"
  using getAddressPool_unknown [of emptySpace "''10.0.0.0/24''"]
  by (simp add: emptySpace_def)

text \<open>
  The claim as stated names \<open>errAddressPoolNotFound\<close>; on the empty space the lookup
  of a pool id gives another error.
\<close>

theorem getAddressPool_counterexample:
  "map_of (as_Pools emptySpace) ''10.0.0.0/24'' = None \<and>
   getAddressPool emptySpace ''10.0.0.0/24'' \<noteq> Inl errAddressPoolNotFound"
  by (simp add: getAddressPool_def emptySpace_def)

subsection \<open>Requesting a pool\<close>

text \<open>
  C4. A request for a pool id that the space does not hold, with no network name among
  the options: \<^verbatim>\<open>getPool\<close> returns a nil pool and a nil error, and the final log line
  of \<^verbatim>\<open>requestPool\<close> reads \<^verbatim>\<open>ap.Id\<close> through the nil pointer. The call panics where
  the claim expects \<open>errAddressPoolNotFound\<close>.
\<close>

theorem requestPool_missing_pool_panics:
  "requestPool (storeOf []) emptySpace ''10.0.0.0/24'' '''' (Some Map.empty) False
     = Some (storeOf [], emptySpace, Inl panicNilPointer)"
  by (simp add: requestPool_def getPool_def finishRequestPool_def emptySpace_def optGet_def)

text \<open>
  C3. A request for any pool on a space with two free IPv4 pools, visited in the order
  secondary, primary: the second comparison of the loop is not guarded by equal
  priorities, so the pool of priority 0 with two addresses replaces the pool of
  priority 1 with one address.
\<close>

theorem requestPool_any_prefers_capacity:
  "requestPool twoPoolStore twoPoolSpace '''' '''' None False
     = Some (twoPoolStore,
             twoPoolSpace\<lparr> as_Pools := [(''10.1.0.0/24'', secondaryPool),
                                         (''10.0.0.0/24'', primaryPool\<lparr> ap_RefCount := 1 \<rparr>)] \<rparr>,
             Inr ''10.0.0.0/24'')"
  by (simp add: requestPool_def finishRequestPool_def twoPoolSpace_def optGet_def isInUse_def
      secondaryPool_def primaryPool_def examplePool_def wrapInt_one)

lemma secondaryPool_priority: "ap_Priority primaryPool < ap_Priority secondaryPool"
  by (simp add: secondaryPool_def primaryPool_def examplePool_def)

text \<open>Visited in the other order, the same two pools give the pool of higher priority.\<close>

lemma requestPool_any_other_order:
  "requestPool twoPoolStore
     (twoPoolSpace\<lparr> as_Pools := [(''10.0.0.0/24'', primaryPool), (''10.1.0.0/24'', secondaryPool)] \<rparr>)
     '''' '''' None False
     = Some (twoPoolStore,
             twoPoolSpace\<lparr> as_Pools := [(''10.0.0.0/24'', primaryPool),
                                         (''10.1.0.0/24'', secondaryPool\<lparr> ap_RefCount := 1 \<rparr>)] \<rparr>,
             Inr ''10.1.0.0/24'')"
  by (simp add: requestPool_def finishRequestPool_def twoPoolSpace_def optGet_def isInUse_def
      secondaryPool_def primaryPool_def examplePool_def wrapInt_one)

subsection \<open>Requesting and releasing an address\<close>

lemma uitoa_nonempty: "uitoa n \<noteq> []"
  by (subst uitoa.simps) simp

lemma hexNat_nonempty: "hexNat n \<noteq> []"
  by (subst hexNat.simps) simp

lemma join_nonempty: "xs \<noteq> [] \<Longrightarrow> \<forall>x\<in>set xs. x \<noteq> [] \<Longrightarrow> join xs sep \<noteq> []"
  by (induction xs sep rule: join.induct) auto

lemma groups16_nonempty: "length ip = 16 \<Longrightarrow> groups16 ip \<noteq> []"
  by (cases ip; cases "tl ip") auto

lemma IP_String_nonempty: "IP_String ip \<noteq> []"
proof -
  have a: "length (To4 ip) = 4 \<Longrightarrow> join (map (\<lambda>c. uitoa (unat c)) (To4 ip)) ''.'' \<noteq> []"
    by (rule join_nonempty) (auto simp: uitoa_nonempty simp del: uitoa.simps)
  have b: "length ip = 16 \<Longrightarrow> join (map hexNat (groups16 ip)) '':'' \<noteq> []"
    by (rule join_nonempty) (auto simp: hexNat_nonempty groups16_nonempty simp del: hexNat.simps)
  show ?thesis
    using a b by (auto simp: IP_String_def Let_def simp del: uitoa.simps hexNat.simps split: prod.splits)
qed

text \<open>
  C5 (amended). For a registered address \<open>a\<close> that is free and a non-empty id \<open>x\<close>,
  the request of \<open>a\<close> under \<open>x\<close> made twice succeeds both times with the same CIDR
  string, the address of the record with the mask of the pool. Afterwards the map of
  addresses is as before, \<open>x\<close> is mapped to the record of \<open>a\<close>, which carries the id
  \<open>x\<close>, and the records in use are the record of \<open>a\<close> and those in use before: one
  record more, not one record in all.
\<close>

theorem requestAddress_idempotent:
  assumes "map_of (ap_Addresses ap) a = Some r" and "\<not> ar_InUse (recs \<sigma> r)"
    and "a \<noteq> ''''" and "x \<noteq> ''''" and "optGet options OptAddressID = x"
  shows "\<exists>\<sigma>1 ap1 \<sigma>2 ap2 cidr.
           requestAddress \<sigma> ap a options = (\<sigma>1, ap1, Inr cidr) \<and>
           requestAddress \<sigma>1 ap1 a options = (\<sigma>2, ap2, Inr cidr) \<and>
           cidr = IPNet_String \<lparr> IP = ar_Addr (recs \<sigma> r), Mask = Mask (ap_Subnet ap) \<rparr> \<and>
           ap_Addresses ap2 = ap_Addresses ap \<and>
           map_of (ap_addrsByID ap2) x = Some r \<and>
           ar_ID (recs \<sigma>2 r) = x \<and>
           (\<forall>r'. ar_InUse (recs \<sigma>2 r') \<longleftrightarrow> r' = r \<or> ar_InUse (recs \<sigma> r'))"
  using assms
  by (auto simp add: requestAddress_def selectAddress_def updRec_def Let_def update_Some_unfold)

theorem requestAddress_idempotent_witness:
  "map_of (ap_Addresses heldPool) ''10.0.0.5'' = Some 1 \<and>
   \<not> ar_InUse (recs heldStore 1) \<and>
   optGet (idOptions ''c1'') OptAddressID = ''c1'' \<and>
   (\<exists>\<sigma>1 ap1 \<sigma>2 ap2 cidr.
      requestAddress heldStore heldPool ''10.0.0.5'' (idOptions ''c1'') = (\<sigma>1, ap1, Inr cidr) \<and>
      requestAddress \<sigma>1 ap1 ''10.0.0.5'' (idOptions ''c1'') = (\<sigma>2, ap2, Inr cidr) \<and>
      map_of (ap_addrsByID ap2) ''c1'' = Some 1 \<and>
      (\<forall>r'. ar_InUse (recs \<sigma>2 r') \<longleftrightarrow> r' = 1 \<or> ar_InUse (recs heldStore r')))"
proof -
  have h1: "map_of (ap_Addresses heldPool) ''10.0.0.5'' = Some 1"
    by (simp add: heldPool_def example_defs)
  have h2: "\<not> ar_InUse (recs heldStore 1)"
    by (simp add: heldStore_def example_defs)
  have h3: "optGet (idOptions ''c1'') OptAddressID = ''c1''"
    by (simp add: optGet_def example_defs)
  show ?thesis
    using h1 h2 h3 requestAddress_idempotent [OF h1 h2 _ _ h3] by auto
qed

text \<open>
  The claim as stated leaves exactly one record in use. On a pool where another address
  is already held, the two requests succeed and two records are in use afterwards.
\<close>

theorem requestAddress_twice_counterexample:
  "map_of (ap_Addresses heldPool) ''10.0.0.5'' = Some 1 \<and>
   \<not> ar_InUse (recs heldStore 1) \<and>
   snd (snd firstRequest) = Inr ''10.0.0.5/24'' \<and>
   snd (snd secondRequest) = Inr ''10.0.0.5/24'' \<and>
   ap_Addresses (fst (snd secondRequest)) = [(''10.0.0.4'', 0), (''10.0.0.5'', 1)] \<and>
   ar_InUse (recs (fst secondRequest) 0) \<and>
   ar_InUse (recs (fst secondRequest) 1)"
  by (simp add: secondRequest_def firstRequest_def heldStore_def heldPool_def address_defs
      example_defs net_eval)

text \<open>
  C6 (amended). The request of the gateway succeeds on every pool: it returns the
  gateway with the mask of the pool, leaves the pool as it is (nothing is registered
  in either map) and changes no record of the store but the fresh one it allocates.
  The release of the gateway address that follows succeeds and changes nothing when
  the gateway address is not a key of the pool's addresses.
\<close>

theorem requestAddress_gateway:
  assumes "optGet options OptAddressType = OptAddressTypeGateway"
  shows "\<exists>\<sigma>1. requestAddress \<sigma> ap '''' options
            = (\<sigma>1, ap, Inr (IPNet_String \<lparr> IP = ap_Gateway ap, Mask = Mask (ap_Subnet ap) \<rparr>)) \<and>
          (\<forall>r. r \<noteq> nextRef \<sigma> \<longrightarrow> recs \<sigma>1 r = recs \<sigma> r) \<and>
          (map_of (ap_Addresses ap) (IP_String (ap_Gateway ap)) = None \<longrightarrow>
             releaseAddress \<sigma>1 as ap (IP_String (ap_Gateway ap)) ropts = (\<sigma>1, ap, None))"
  using assms
  by (simp add: requestAddress_def selectAddress_def alloc_def updRec_def releaseAddress_def
      IP_String_nonempty Let_def)

theorem requestAddress_gateway_witness:
  "optGet gatewayOptions OptAddressType = OptAddressTypeGateway \<and>
   map_of (ap_Addresses heldPool) (IP_String (ap_Gateway heldPool)) = None \<and>
   (\<exists>\<sigma>1. requestAddress heldStore heldPool '''' gatewayOptions
            = (\<sigma>1, heldPool, Inr (IPNet_String \<lparr> IP = ap_Gateway heldPool, Mask = Mask (ap_Subnet heldPool) \<rparr>)) \<and>
          releaseAddress \<sigma>1 emptySpace heldPool (IP_String (ap_Gateway heldPool)) None = (\<sigma>1, heldPool, None))"
proof -
  have h1: "optGet gatewayOptions OptAddressType = OptAddressTypeGateway"
    by (simp add: optGet_def example_defs)
  have h2: "map_of (ap_Addresses heldPool) (IP_String (ap_Gateway heldPool)) = None"
    by (simp add: heldPool_def example_defs net_eval)
  show ?thesis
    using h1 h2 requestAddress_gateway [OF h1, of heldStore heldPool emptySpace None] by auto
qed

text \<open>
  The claim as stated promises the no-op for every pool. In the overlay pool of
  10.0.0.0/30 the gateway 10.0.0.1 is a registered address, in use since the pool was
  populated: the request of the gateway returns 10.0.0.1/30 and leaves the pool as it
  is, and the release of 10.0.0.1 that follows succeeds by releasing that record.
\<close>

theorem gateway_release_counterexample:
  "IP_String (ap_Gateway overlayPool) = ''10.0.0.1'' \<and>
   snd (snd gatewayRequested) = Inr ''10.0.0.1/30'' \<and>
   fst (snd gatewayRequested) = overlayPool \<and>
   snd (snd gatewayReleased) = None \<and>
   map_of (ap_Addresses overlayPool) ''10.0.0.1'' = Some 1 \<and>
   ar_InUse (recs (fst gatewayRequested) 1) \<and>
   \<not> ar_InUse (recs (fst gatewayReleased) 1)"
  by (simp add: gatewayReleased_def gatewayRequested_def overlayStore_def overlayPool_def
      overlaySpace_def address_defs example_defs net_eval)


subsection \<open>The overlay pool of 10.0.0.0/30\<close>

lemma ParseCIDR_30:
  "ParseCIDR ''10.0.0.0/30'' = Some (v4InV6Prefix @ [10, 0, 0, 0], net10_30)"
  by (simp add: ParseCIDR_def net10_30_def net_eval upt_rec)

lemma ipRange_30:
  "ipRange net10_30 [10, 0, 0, 0] [] = Some [''10.0.0.0'', ''10.0.0.1'', ''10.0.0.2'', ''10.0.0.3'']"
  by (simp add: ipRange.simps net10_30_def net_eval)

lemma String_30: "IPNet_String net10_30 = ''10.0.0.0/30''"
  by (simp add: net10_30_def net_eval)

lemma ParseIP_30:
  "ParseIP ''10.0.0.0'' = v4InV6Prefix @ [10, 0, 0, 0]"
  "ParseIP ''10.0.0.1'' = v4InV6Prefix @ [10, 0, 0, 1]"
  "ParseIP ''10.0.0.2'' = v4InV6Prefix @ [10, 0, 0, 2]"
  "ParseIP ''10.0.0.3'' = v4InV6Prefix @ [10, 0, 0, 3]"
  by (simp_all add: net_eval)

lemma Contains_30:
  "Contains net10_30 (v4InV6Prefix @ [10, 0, 0, 0])"
  "Contains net10_30 (v4InV6Prefix @ [10, 0, 0, 1])"
  "Contains net10_30 (v4InV6Prefix @ [10, 0, 0, 2])"
  "Contains net10_30 (v4InV6Prefix @ [10, 0, 0, 3])"
  by (simp_all add: net10_30_def net_eval)

lemma IP_String_30:
  "IP_String (v4InV6Prefix @ [10, 0, 0, 0]) = ''10.0.0.0''"
  "IP_String (v4InV6Prefix @ [10, 0, 0, 1]) = ''10.0.0.1''"
  "IP_String (v4InV6Prefix @ [10, 0, 0, 2]) = ''10.0.0.2''"
  "IP_String (v4InV6Prefix @ [10, 0, 0, 3]) = ''10.0.0.3''"
  by (simp_all add: net_eval)

lemma populate_30:
  assumes "ap_Addresses ap = []" and "ap_Subnet ap = net10_30"
  shows "\<exists>\<sigma>1 ap1.
     populateIPAddresses \<sigma> ap (v4InV6Prefix @ [10, 0, 0, 0]) net10_30 = Some (\<sigma>1, ap1, None) \<and>
     ap1 = ap\<lparr> ap_Addresses := [(''10.0.0.0'', nextRef \<sigma>), (''10.0.0.1'', Suc (nextRef \<sigma>)),
                                  (''10.0.0.2'', Suc (Suc (nextRef \<sigma>))), (''10.0.0.3'', Suc (Suc (Suc (nextRef \<sigma>))))] \<rparr> \<and>
     map (\<lambda>r. ar_InUse (recs \<sigma>1 r)) (map snd (ap_Addresses ap1)) = [True, True, False, True] \<and>
     map (\<lambda>r. ar_Addr (recs \<sigma>1 r)) (map snd (ap_Addresses ap1))
        = [v4InV6Prefix @ [10, 0, 0, 0], v4InV6Prefix @ [10, 0, 0, 1],
           v4InV6Prefix @ [10, 0, 0, 2], v4InV6Prefix @ [10, 0, 0, 3]]"
proof -
  have m: "IP_Mask (v4InV6Prefix @ [10, 0, 0, 0]) (Mask net10_30) = [10, 0, 0, 0]"
    by (simp add: net10_30_def net_eval)
  show ?thesis
    using assms
    by (simp add: populateIPAddresses_def m ipRange_30 newAddressRecord_def ParseIP_30 Contains_30
        IP_String_30 alloc_def updRec_def)
qed

lemma map_entry_update: "AList.map_entry k f (AList.update k v al) = AList.update k (f v) al"
  by (induction al) auto

text \<open>
  C7. On a space that holds no pool under 10.0.0.0/30 or under that id followed by the
  network name, the request of the pool 10.0.0.0/30 with a network name and the
  overlay option returns and creates the pool under the id followed by the network
  name. Its addresses are exactly 10.0.0.0, 10.0.0.1, 10.0.0.2 and 10.0.0.3, each with
  a record of its own; the first, second and last are in use and 10.0.0.2 is free. A
  request for any address returns 10.0.0.2/30, and the next one finds no address.
\<close>

theorem overlay_pool_30:
  assumes a1: "map_of (as_Pools as) ''10.0.0.0/30'' = None"
    and a2: "map_of (as_Pools as) (''10.0.0.0/30'' @ nw) = None"
    and o1: "optGet options OptNetworkName = nw" and o2: "nw \<noteq> ''''"
    and o3: "optGet options OptOverlayNetwork \<noteq> ''''"
  shows "\<exists>\<sigma>1 as1 ap.
     requestPool \<sigma> as ''10.0.0.0/30'' sub options v6 = Some (\<sigma>1, as1, Inr (''10.0.0.0/30'' @ nw)) \<and>
     map_of (as_Pools as1) (''10.0.0.0/30'' @ nw) = Some ap \<and>
     map fst (ap_Addresses ap) = [''10.0.0.0'', ''10.0.0.1'', ''10.0.0.2'', ''10.0.0.3''] \<and>
     map (\<lambda>(a, r). ar_InUse (recs \<sigma>1 r)) (ap_Addresses ap) = [True, True, False, True] \<and>
     distinct (map snd (ap_Addresses ap)) \<and>
     (\<exists>\<sigma>2 ap2. requestAddress \<sigma>1 ap '''' None = (\<sigma>2, ap2, Inr ''10.0.0.2/30'') \<and>
                requestAddress \<sigma>2 ap2 '''' None = (\<sigma>2, ap2, Inl errNoAvailableAddresses))"
proof -
  define k where "k = ''10.0.0.0/30'' @ nw"
  define ap0 where "ap0 = \<lparr> ap_as = ownerSpace, ap_Id = k, ap_IfName = '''', ap_Subnet = net10_30,
     ap_Gateway = GenerateAddress net10_30 defaultGatewayHostId, ap_Addresses = [], ap_addrsByID = [],
     ap_IsIPv6 = (To4 (IP net10_30) = []), ap_Priority = 0, ap_RefCount = 0, ap_epoch = as_epoch as \<rparr>"
  have opt: "options \<noteq> None"
    using o1 o2 by (cases options) (auto simp: optGet_def)
  have np: "newAddressPool as '''' nw 0 net10_30
              = (as\<lparr> as_Pools := AList.update k ap0 (as_Pools as) \<rparr>, k, None)"
    using a2 by (simp add: newAddressPool_def String_30 k_def ap0_def)
  obtain \<sigma>1 ap1 where
    pop: "populateIPAddresses \<sigma> ap0 (v4InV6Prefix @ [10, 0, 0, 0]) net10_30 = Some (\<sigma>1, ap1, None)"
    and ap1: "ap1 = ap0\<lparr> ap_Addresses := [(''10.0.0.0'', nextRef \<sigma>), (''10.0.0.1'', Suc (nextRef \<sigma>)),
                                  (''10.0.0.2'', Suc (Suc (nextRef \<sigma>))), (''10.0.0.3'', Suc (Suc (Suc (nextRef \<sigma>))))] \<rparr>"
    and use: "map (\<lambda>r. ar_InUse (recs \<sigma>1 r)) (map snd (ap_Addresses ap1)) = [True, True, False, True]"
    and str: "map (\<lambda>r. ar_Addr (recs \<sigma>1 r)) (map snd (ap_Addresses ap1))
        = [v4InV6Prefix @ [10, 0, 0, 0], v4InV6Prefix @ [10, 0, 0, 1],
           v4InV6Prefix @ [10, 0, 0, 2], v4InV6Prefix @ [10, 0, 0, 3]]"
    using populate_30 [of ap0 \<sigma>] by (auto simp: ap0_def)
  have gp: "getPool \<sigma> as ''10.0.0.0/30'' options
              = Some (\<sigma>1, as\<lparr> as_Pools := AList.update k ap1 (AList.update k ap0 (as_Pools as)) \<rparr>,
                      Some k, None)"
    using a1 a2 o1 o2 o3 opt
    by (simp add: getPool_def ParseCIDR_30 np pop update_conv' k_def [symmetric])
  have rp: "requestPool \<sigma> as ''10.0.0.0/30'' sub options v6
              = Some (\<sigma>1, as\<lparr> as_Pools := AList.update k (ap1\<lparr> ap_RefCount := 1 \<rparr>) (as_Pools as) \<rparr>, Inr k)"
    by (simp add: requestPool_def gp finishRequestPool_def ap1 ap0_def map_entry_update wrapInt_one)
  have s2: "IPNet_String \<lparr> IP = v4InV6Prefix @ [10, 0, 0, 2], Mask = Mask net10_30 \<rparr> = ''10.0.0.2/30''"
    by (simp add: net10_30_def net_eval)
  have r1: "requestAddress \<sigma>1 (ap1\<lparr> ap_RefCount := 1 \<rparr>) '''' None
              = (updRec \<sigma>1 (Suc (Suc (nextRef \<sigma>))) (\<lambda>r. r\<lparr> ar_ID := '''', ar_InUse := True \<rparr>),
                 ap1\<lparr> ap_RefCount := 1 \<rparr>, Inr ''10.0.0.2/30'')"
    using use str
    by (simp add: requestAddress_def selectAddress_def optGet_def OptAddressTypeGateway_def
        firstFree_def ap1 ap0_def s2)
  have r2: "requestAddress (updRec \<sigma>1 (Suc (Suc (nextRef \<sigma>))) (\<lambda>r. r\<lparr> ar_ID := '''', ar_InUse := True \<rparr>))
              (ap1\<lparr> ap_RefCount := 1 \<rparr>) '''' None
              = (updRec \<sigma>1 (Suc (Suc (nextRef \<sigma>))) (\<lambda>r. r\<lparr> ar_ID := '''', ar_InUse := True \<rparr>),
                 ap1\<lparr> ap_RefCount := 1 \<rparr>, Inl errNoAvailableAddresses)"
    using use
    by (simp add: requestAddress_def selectAddress_def optGet_def OptAddressTypeGateway_def
        firstFree_def updRec_def ap1 ap0_def)
  have shape: "map fst (ap_Addresses ap1) = [''10.0.0.0'', ''10.0.0.1'', ''10.0.0.2'', ''10.0.0.3'']"
    "map (\<lambda>(a, r). ar_InUse (recs \<sigma>1 r)) (ap_Addresses ap1) = [True, True, False, True]"
    "distinct (map snd (ap_Addresses ap1))"
    using use by (simp_all add: ap1)
  show ?thesis
    unfolding k_def [symmetric]
    using rp r1 r2 shape by (simp add: update_conv')
qed

theorem overlay_pool_30_witness:
  "map_of (as_Pools emptySpace) ''10.0.0.0/30'' = None \<and>
   map_of (as_Pools emptySpace) (''10.0.0.0/30'' @ ''net1'') = None \<and>
   optGet overlayOptions OptNetworkName = ''net1'' \<and>
   optGet overlayOptions OptOverlayNetwork \<noteq> '''' \<and>
   (\<exists>\<sigma>1 as1 ap.
      requestPool (storeOf []) emptySpace ''10.0.0.0/30'' '''' overlayOptions False
        = Some (\<sigma>1, as1, Inr (''10.0.0.0/30'' @ ''net1'')) \<and>
      map_of (as_Pools as1) (''10.0.0.0/30'' @ ''net1'') = Some ap \<and>
      map fst (ap_Addresses ap) = [''10.0.0.0'', ''10.0.0.1'', ''10.0.0.2'', ''10.0.0.3''] \<and>
      map (\<lambda>(a, r). ar_InUse (recs \<sigma>1 r)) (ap_Addresses ap) = [True, True, False, True])"
proof -
  have h1: "map_of (as_Pools emptySpace) ''10.0.0.0/30'' = None"
    and h2: "map_of (as_Pools emptySpace) (''10.0.0.0/30'' @ ''net1'') = None"
    by (simp_all add: emptySpace_def)
  have h3: "optGet overlayOptions OptNetworkName = ''net1''"
    and h4: "''net1'' \<noteq> ''''"
    and h5: "optGet overlayOptions OptOverlayNetwork \<noteq> ''''"
    by (simp_all add: optGet_def example_defs)
  show ?thesis
    using h1 h2 h3 h5
      overlay_pool_30 [OF h1 h2 h3 h4 h5, of "storeOf []" "''''" False]
    by (elim exE conjE) (intro conjI exI; assumption)
qed


subsection \<open>Merge: the epoch of the space\<close>

lemmas merge_example_defs = mergeStore_def liveSpace_def snapshot_def snapshotPoolA_def
  snapshotPoolB_def heldPool_def

lemma mergeAddress_fields:
  "mergeAddress e ak av (\<sigma>, p) = (\<sigma>1, p1) \<Longrightarrow> p1 = p\<lparr> ap_Addresses := ap_Addresses p1 \<rparr>"
  by (auto simp: mergeAddress_def split: option.splits)

lemma mergeAddresses_fields:
  "mergeAddresses e avs (\<sigma>, p) = (\<sigma>1, p1) \<Longrightarrow> p1 = p\<lparr> ap_Addresses := ap_Addresses p1 \<rparr>"
proof (induction avs arbitrary: \<sigma> p)
  case Nil
  then show ?case by simp
next
  case (Cons x avs)
  obtain ak av where x: "x = (ak, av)" by (cases x)
  obtain \<sigma>' p' where st: "mergeAddress e ak av (\<sigma>, p) = (\<sigma>', p')"
    by (cases "mergeAddress e ak av (\<sigma>, p)")
  from Cons.prems x st have "mergeAddresses e avs (\<sigma>', p') = (\<sigma>1, p1)" by simp
  from Cons.IH [OF this] have a: "p1 = p'\<lparr> ap_Addresses := ap_Addresses p1 \<rparr>" .
  from mergeAddress_fields [OF st] have b: "p' = p\<lparr> ap_Addresses := ap_Addresses p' \<rparr>" .
  have "p1 = (p\<lparr> ap_Addresses := ap_Addresses p' \<rparr>)\<lparr> ap_Addresses := ap_Addresses p1 \<rparr>"
    using a b by simp
  then show ?case by simp
qed

lemma mergePool_epoch:
  "mergePool e pk pv (\<sigma>, as, newas, u) = (\<sigma>1, as1, newas1, u1) \<Longrightarrow>
     as_epoch as1 = as_epoch as \<and>
     (u1 \<longleftrightarrow> u \<or> map_of (as_Pools as) pk = None \<or> ap_Addresses pv \<noteq> []) \<and>
     (\<forall>k. map_of (as_Pools as1) k = None \<longleftrightarrow> k \<noteq> pk \<and> map_of (as_Pools as) k = None)"
  by (auto simp: mergePool_def update_conv' split: option.splits prod.splits if_splits)

lemma mergePools_epoch:
  "mergePools e ps (\<sigma>, as, newas, u) = (\<sigma>1, as1, newas1, u1) \<Longrightarrow>
     as_epoch as1 = as_epoch as \<and>
     (u1 \<longleftrightarrow> u \<or> list_ex (\<lambda>(pk, pv). map_of (as_Pools as) pk = None \<or> ap_Addresses pv \<noteq> []) ps)"
proof (induction ps arbitrary: \<sigma> as newas u)
  case Nil
  then show ?case by simp
next
  case (Cons x ps)
  obtain pk pv where x: "x = (pk, pv)" by (cases x)
  obtain \<sigma>' as' newas' u' where st: "mergePool e pk pv (\<sigma>, as, newas, u) = (\<sigma>', as', newas', u')"
    by (cases "mergePool e pk pv (\<sigma>, as, newas, u)")
  note s = mergePool_epoch [OF st]
  from Cons.prems x st have "mergePools e ps (\<sigma>', as', newas', u') = (\<sigma>1, as1, newas1, u1)" by simp
  note ih = Cons.IH [OF this]
  have "list_ex (\<lambda>(pk, pv). map_of (as_Pools as') pk = None \<or> ap_Addresses pv \<noteq> []) ps \<or> u'
        \<longleftrightarrow> list_ex (\<lambda>(pk, pv). map_of (as_Pools as) pk = None \<or> ap_Addresses pv \<noteq> []) ps \<or> u'"
    using s by (fastforce simp: list_ex_iff)
  with ih s x show ?case by auto
qed

lemma sweepPool_epoch: "sweepPool pk pv (\<sigma>, as) = (\<sigma>1, as1) \<Longrightarrow> as_epoch as1 = as_epoch as"
  by (auto simp: sweepPool_def split: if_splits prod.splits)

lemma sweepPools_epoch: "sweepPools ps (\<sigma>, as) = (\<sigma>1, as1) \<Longrightarrow> as_epoch as1 = as_epoch as"
proof (induction ps arbitrary: \<sigma> as)
  case Nil
  then show ?case by simp
next
  case (Cons x ps)
  obtain pk pv where x: "x = (pk, pv)" by (cases x)
  obtain \<sigma>' as' where st: "sweepPool pk pv (\<sigma>, as) = (\<sigma>', as')"
    by (cases "sweepPool pk pv (\<sigma>, as)")
  from Cons.prems x st have "sweepPools ps (\<sigma>', as') = (\<sigma>1, as1)" by simp
  from Cons.IH [OF this] sweepPool_epoch [OF st] show ?case by simp
qed

lemma merge_epoch:
  assumes "merge \<sigma> as newas = (\<sigma>1, as1, newas1)"
  shows "as_epoch as1 = (if adoptsOrReconfirms as newas then wrapInt (as_epoch as + 1) else as_epoch as)"
proof -
  obtain \<sigma>a asa newasa u where
    p1: "mergePools (wrapInt (as_epoch as + 1)) (as_Pools newas) (\<sigma>, as, newas, False)
           = (\<sigma>a, asa, newasa, u)"
    by (cases "mergePools (wrapInt (as_epoch as + 1)) (as_Pools newas) (\<sigma>, as, newas, False)")
  note e1 = mergePools_epoch [OF p1]
  define as2 where "as2 = (if u then asa\<lparr> as_epoch := wrapInt (as_epoch as + 1) \<rparr> else asa)"
  obtain \<sigma>b asb where p2: "sweepPools (as_Pools as2) (\<sigma>a, as2) = (\<sigma>b, asb)"
    by (cases "sweepPools (as_Pools as2) (\<sigma>a, as2)")
  have "as1 = asb"
    using assms p1 p2 by (simp add: merge_def Let_def as2_def)
  with sweepPools_epoch [OF p2] e1 show ?thesis
    by (simp add: as2_def adoptsOrReconfirms_def)
qed

lemma newAddressPool_epoch':
  "newAddressPool as ifName nwName priority subnet = (as1, k, e) \<Longrightarrow> as_epoch as1 = as_epoch as"
  by (auto simp: newAddressPool_def Let_def split: option.splits)

lemma getPool_epoch:
  assumes "getPool \<sigma> as poolId options = Some (\<sigma>1, as1, ap, err)"
  shows "as_epoch as1 = as_epoch as"
proof (cases "map_of (as_Pools as) poolId = None \<and> options \<noteq> None \<and> optGet options OptNetworkName \<noteq> ''''
    \<and> map_of (as_Pools as) (poolId @ optGet options OptNetworkName) = None
    \<and> optGet options OptOverlayNetwork \<noteq> ''''")
  case False
  with assms show ?thesis
    by (auto simp: getPool_def Let_def split: option.splits if_splits)
next
  case True
  show ?thesis
  proof (cases "ParseCIDR poolId")
    case None
    with True assms show ?thesis by (auto simp: getPool_def Let_def)
  next
    case (Some pr)
    obtain ip ipnet where pr: "pr = (ip, ipnet)" by (cases pr)
    obtain as2 k e where np: "newAddressPool as '''' (optGet options OptNetworkName) 0 ipnet = (as2, k, e)"
      by (cases "newAddressPool as '''' (optGet options OptNetworkName) 0 ipnet")
    have e2: "as_epoch as2 = as_epoch as" using np by (rule newAddressPool_epoch')
    from True Some pr np assms e2 show ?thesis
      by (auto simp: getPool_def Let_def split: option.splits)
  qed
qed

lemma requestPool_epoch:
  assumes "requestPool \<sigma> as poolId sub options v6 = Some (\<sigma>1, as1, res)"
  shows "as_epoch as1 = as_epoch as"
proof (cases "poolId = ''''")
  case True
  with assms show ?thesis
    by (auto simp: requestPool_def finishRequestPool_def split: option.splits)
next
  case False
  with assms obtain \<sigma>2 as2 ap err where g: "getPool \<sigma> as poolId options = Some (\<sigma>2, as2, ap, err)"
    by (auto simp: requestPool_def split: option.splits)
  from getPool_epoch [OF g] False assms g show ?thesis
    by (auto simp: requestPool_def finishRequestPool_def split: option.splits)
qed

lemma releasePool_epoch: "as_epoch (fst (releasePool as poolId)) = as_epoch as"
  by (auto simp: releasePool_def Let_def split: option.splits)

lemma newAddressPool_epoch: "as_epoch (fst (newAddressPool as ifName nwName priority subnet)) = as_epoch as"
  by (auto simp: newAddressPool_def Let_def split: option.splits)

lemma adopts_example: "adoptsOrReconfirms liveSpace snapshot"
  by (simp add: adoptsOrReconfirms_def merge_example_defs)

subsection \<open>Merge: an address in use that the snapshot no longer lists\<close>

lemma mergeAddress_frame:
  assumes st: "mergeAddress e ak av (\<sigma>, p) = (\<sigma>1, p1)"
    and fresh: "av \<noteq> r" and slot: "map_of (ap_Addresses p) ak \<noteq> Some r"
  shows "recs \<sigma>1 r = recs \<sigma> r"
    and "map_of (ap_Addresses p1) k = Some r \<longleftrightarrow> map_of (ap_Addresses p) k = Some r"
  using assms
  by (auto simp: mergeAddress_def updRec_def update_conv' split: option.splits if_splits)

lemma mergeAddress_distinct:
  "mergeAddress e ak av (\<sigma>, p) = (\<sigma>1, p1) \<Longrightarrow> distinct (map fst (ap_Addresses p))
     \<Longrightarrow> distinct (map fst (ap_Addresses p1))"
  by (auto simp: mergeAddress_def distinct_update split: option.splits)

lemma mergeAddresses_frame:
  assumes "mergeAddresses e avs (\<sigma>, p) = (\<sigma>1, p1)"
    and "r \<notin> snd ` set avs"
    and "\<forall>ak \<in> fst ` set avs. map_of (ap_Addresses p) ak \<noteq> Some r"
  shows "recs \<sigma>1 r = recs \<sigma> r \<and>
         (\<forall>k. map_of (ap_Addresses p1) k = Some r \<longleftrightarrow> map_of (ap_Addresses p) k = Some r)"
  using assms
proof (induction avs arbitrary: \<sigma> p)
  case Nil
  then show ?case by simp
next
  case (Cons x avs)
  obtain ak av where x: "x = (ak, av)" by (cases x)
  obtain \<sigma>' p' where st: "mergeAddress e ak av (\<sigma>, p) = (\<sigma>', p')"
    by (cases "mergeAddress e ak av (\<sigma>, p)")
  have av: "av \<noteq> r" and sl: "map_of (ap_Addresses p) ak \<noteq> Some r"
    using Cons.prems(2,3) x by auto
  note f = mergeAddress_frame [OF st av sl]
  have rest: "mergeAddresses e avs (\<sigma>', p') = (\<sigma>1, p1)"
    using Cons.prems(1) x st by simp
  have c2: "r \<notin> snd ` set avs" using Cons.prems(2) by auto
  have c3: "\<forall>ak \<in> fst ` set avs. map_of (ap_Addresses p') ak \<noteq> Some r"
    using Cons.prems(3) f(2) by auto
  from Cons.IH [OF rest c2 c3] f show ?case by simp
qed

lemma mergeAddresses_distinct:
  "mergeAddresses e avs (\<sigma>, p) = (\<sigma>1, p1) \<Longrightarrow> distinct (map fst (ap_Addresses p))
     \<Longrightarrow> distinct (map fst (ap_Addresses p1))"
proof (induction avs arbitrary: \<sigma> p)
  case Nil
  then show ?case by simp
next
  case (Cons x avs)
  obtain ak av where x: "x = (ak, av)" by (cases x)
  obtain \<sigma>' p' where st: "mergeAddress e ak av (\<sigma>, p) = (\<sigma>', p')"
    by (cases "mergeAddress e ak av (\<sigma>, p)")
  have rest: "mergeAddresses e avs (\<sigma>', p') = (\<sigma>1, p1)"
    using Cons.prems(1) x st by simp
  from Cons.IH [OF rest mergeAddress_distinct [OF st Cons.prems(2)]] show ?case .
qed

text \<open>One step of the loop over the snapshot's pools, seen from a record \<open>r\<close>.\<close>

lemma mergePool_frame:
  assumes st: "mergePool e pk' pv (\<sigma>, as, newas, u) = (\<sigma>1, as1, newas1, u1)"
    and fresh: "r \<notin> set (poolRefs pv)"
    and gone: "\<forall>ak \<in> fst ` set (ap_Addresses pv). lookupAddr as pk' ak \<noteq> Some r"
  shows "recs \<sigma>1 r = recs \<sigma> r"
    and "lookupAddr as1 k a' = Some r \<longleftrightarrow> lookupAddr as k a' = Some r"
    and "k \<noteq> pk' \<Longrightarrow> map_of (as_Pools as1) k = map_of (as_Pools as) k"
    and "distinct (map fst (as_Pools as)) \<Longrightarrow> distinct (map fst (as_Pools as1))"
proof -
  show "k \<noteq> pk' \<Longrightarrow> map_of (as_Pools as1) k = map_of (as_Pools as) k"
    using st by (auto simp: mergePool_def update_conv' split: option.splits prod.splits)
  show "distinct (map fst (as_Pools as)) \<Longrightarrow> distinct (map fst (as_Pools as1))"
    using st by (auto simp: mergePool_def distinct_update split: option.splits prod.splits)
  show "recs \<sigma>1 r = recs \<sigma> r"
  proof (cases "map_of (as_Pools as) pk'")
    case None
    with st show ?thesis by (simp add: mergePool_def)
  next
    case (Some p)
    obtain \<sigma>' p' where ma: "mergeAddresses e (ap_Addresses pv) (\<sigma>, p) = (\<sigma>', p')"
      by (cases "mergeAddresses e (ap_Addresses pv) (\<sigma>, p)")
    have "\<sigma>1 = \<sigma>'" using st Some ma by (auto simp: mergePool_def)
    moreover have "recs \<sigma>' r = recs \<sigma> r"
      using mergeAddresses_frame [OF ma] fresh gone Some
      by (simp add: poolRefs_def lookupAddr_def)
    ultimately show ?thesis by simp
  qed
  show "lookupAddr as1 k a' = Some r \<longleftrightarrow> lookupAddr as k a' = Some r"
  proof (cases "map_of (as_Pools as) pk'")
    case None
    have "map_of (ap_Addresses pv) a' \<noteq> Some r"
      using fresh by (auto simp: poolRefs_def dest!: map_of_SomeD) force
    with st None show ?thesis
      by (auto simp: mergePool_def lookupAddr_def update_conv' split: option.splits if_splits)
  next
    case (Some p)
    obtain \<sigma>' p' where ma: "mergeAddresses e (ap_Addresses pv) (\<sigma>, p) = (\<sigma>', p')"
      by (cases "mergeAddresses e (ap_Addresses pv) (\<sigma>, p)")
    have as1: "as_Pools as1 = AList.update pk' p' (as_Pools as)"
      using st Some ma by (auto simp: mergePool_def)
    have "map_of (ap_Addresses p') a' = Some r \<longleftrightarrow> map_of (ap_Addresses p) a' = Some r"
      using mergeAddresses_frame [OF ma] fresh gone Some
      by (simp add: poolRefs_def lookupAddr_def)
    with Some as1 show ?thesis
      by (auto simp: lookupAddr_def update_conv' split: option.splits if_splits)
  qed
qed

lemma mergePool_pool:
  assumes st: "mergePool e pk' pv (\<sigma>, as, newas, u) = (\<sigma>1, as1, newas1, u1)"
    and p: "map_of (as_Pools as) k = Some p"
  shows "\<exists>p1. map_of (as_Pools as1) k = Some p1 \<and> p1 = p\<lparr> ap_Addresses := ap_Addresses p1 \<rparr> \<and>
           (distinct (map fst (ap_Addresses p)) \<longrightarrow> distinct (map fst (ap_Addresses p1)))"
proof (cases "k = pk'")
  case False
  then show ?thesis
    using st p by (auto simp: mergePool_def update_conv' split: option.splits prod.splits)
next
  case True
  obtain \<sigma>' p' where ma: "mergeAddresses e (ap_Addresses pv) (\<sigma>, p) = (\<sigma>', p')"
    by (cases "mergeAddresses e (ap_Addresses pv) (\<sigma>, p)")
  have "map_of (as_Pools as1) k = Some p'"
    using st p ma True by (auto simp: mergePool_def update_conv')
  with mergeAddresses_fields [OF ma] mergeAddresses_distinct [OF ma] show ?thesis by auto
qed

lemma mergePools_frame:
  assumes "mergePools e ps (\<sigma>, as, newas, u) = (\<sigma>1, as1, newas1, u1)"
    and "\<forall>(k, pv) \<in> set ps. r \<notin> set (poolRefs pv)"
    and "\<forall>(k, pv) \<in> set ps. \<forall>ak \<in> fst ` set (ap_Addresses pv). lookupAddr as k ak \<noteq> Some r"
  shows "recs \<sigma>1 r = recs \<sigma> r \<and>
         (\<forall>k a'. lookupAddr as1 k a' = Some r \<longleftrightarrow> lookupAddr as k a' = Some r) \<and>
         (\<forall>k. k \<notin> fst ` set ps \<longrightarrow> map_of (as_Pools as1) k = map_of (as_Pools as) k) \<and>
         (distinct (map fst (as_Pools as)) \<longrightarrow> distinct (map fst (as_Pools as1)))"
  using assms
proof (induction ps arbitrary: \<sigma> as newas u)
  case Nil
  then show ?case by simp
next
  case (Cons x ps)
  obtain pk' pv where x: "x = (pk', pv)" by (cases x)
  obtain \<sigma>' as' newas' u' where st: "mergePool e pk' pv (\<sigma>, as, newas, u) = (\<sigma>', as', newas', u')"
    by (cases "mergePool e pk' pv (\<sigma>, as, newas, u)")
  have fresh: "r \<notin> set (poolRefs pv)"
    and gone: "\<forall>ak \<in> fst ` set (ap_Addresses pv). lookupAddr as pk' ak \<noteq> Some r"
    using Cons.prems(2,3) x by auto
  note f = mergePool_frame [OF st fresh gone]
  have rest: "mergePools e ps (\<sigma>', as', newas', u') = (\<sigma>1, as1, newas1, u1)"
    using Cons.prems(1) x st by simp
  have c2: "\<forall>(k, pv) \<in> set ps. r \<notin> set (poolRefs pv)"
    using Cons.prems(2) by auto
  have c3: "\<forall>(k, pv) \<in> set ps. \<forall>ak \<in> fst ` set (ap_Addresses pv). lookupAddr as' k ak \<noteq> Some r"
    using Cons.prems(3) f(2) by auto
  note ih = Cons.IH [OF rest c2 c3]
  show ?case
    using ih f x by auto
qed

lemma mergePools_pool:
  assumes "mergePools e ps (\<sigma>, as, newas, u) = (\<sigma>1, as1, newas1, u1)"
    and "map_of (as_Pools as) k = Some p"
  shows "\<exists>p1. map_of (as_Pools as1) k = Some p1 \<and> p1 = p\<lparr> ap_Addresses := ap_Addresses p1 \<rparr> \<and>
           (distinct (map fst (ap_Addresses p)) \<longrightarrow> distinct (map fst (ap_Addresses p1)))"
  using assms
proof (induction ps arbitrary: \<sigma> as newas u p)
  case Nil
  then show ?case by simp
next
  case (Cons x ps)
  obtain pk' pv where x: "x = (pk', pv)" by (cases x)
  obtain \<sigma>' as' newas' u' where st: "mergePool e pk' pv (\<sigma>, as, newas, u) = (\<sigma>', as', newas', u')"
    by (cases "mergePool e pk' pv (\<sigma>, as, newas, u)")
  have rest: "mergePools e ps (\<sigma>', as', newas', u') = (\<sigma>1, as1, newas1, u1)"
    using Cons.prems(1) x st by simp
  from mergePool_pool [OF st Cons.prems(2)] obtain p' where
    p': "map_of (as_Pools as') k = Some p'" "p' = p\<lparr> ap_Addresses := ap_Addresses p' \<rparr>"
      "distinct (map fst (ap_Addresses p)) \<longrightarrow> distinct (map fst (ap_Addresses p'))"
    by blast
  from Cons.IH [OF rest p'(1)] obtain p1 where
    p1: "map_of (as_Pools as1) k = Some p1" "p1 = p'\<lparr> ap_Addresses := ap_Addresses p1 \<rparr>"
      "distinct (map fst (ap_Addresses p')) \<longrightarrow> distinct (map fst (ap_Addresses p1))"
    by blast
  have "p1 = (p\<lparr> ap_Addresses := ap_Addresses p' \<rparr>)\<lparr> ap_Addresses := ap_Addresses p1 \<rparr>"
    using p1(2) p'(2) by simp
  then have "p1 = p\<lparr> ap_Addresses := ap_Addresses p1 \<rparr>" by simp
  with p1 p' show ?case by blast
qed

lemma mergePools_append:
  "mergePools e (xs @ ys) s = mergePools e ys (mergePools e xs s)"
proof (induction xs arbitrary: s)
  case Nil
  show ?case by simp
next
  case (Cons x xs)
  show ?case by (cases x) (simp add: Cons.IH)
qed

text \<open>The sweep.\<close>

lemma sweepAddress_records:
  assumes "sweepAddress E ak av (\<sigma>, pv) = (\<sigma>1, pv1)"
  shows "ar_InUse (recs \<sigma>1 x) = ar_InUse (recs \<sigma> x)"
    and "ar_epoch (recs \<sigma>1 x) = ar_epoch (recs \<sigma> x)"
    and "ar_unhealthy (recs \<sigma> x) \<Longrightarrow> ar_unhealthy (recs \<sigma>1 x)"
  using assms by (auto simp: sweepAddress_def updRec_def split: if_splits)

lemma sweepAddress_pool:
  assumes "sweepAddress E ak av (\<sigma>, pv) = (\<sigma>1, pv1)"
  shows "ap_RefCount pv1 = ap_RefCount pv \<and> ap_as pv1 = ap_as pv"
    and "ap_epoch pv1 = E \<or> ap_epoch pv1 = ap_epoch pv"
    and "ap_epoch pv = E \<Longrightarrow> ap_epoch pv1 = E"
    and "k \<noteq> ak \<Longrightarrow> map_of (ap_Addresses pv1) k = map_of (ap_Addresses pv) k"
    and "ar_epoch (recs \<sigma> av) = E \<or> ar_InUse (recs \<sigma> av)
           \<Longrightarrow> ap_Addresses pv1 = ap_Addresses pv \<and> ap_epoch pv1 = E"
    and "ar_epoch (recs \<sigma> av) \<noteq> E \<Longrightarrow> ar_InUse (recs \<sigma> av) \<Longrightarrow> ar_unhealthy (recs \<sigma>1 av)"
  using assms by (auto simp: sweepAddress_def updRec_def split: if_splits)

lemma sweepAddresses_records:
  assumes "sweepAddresses E avs (\<sigma>, pv) = (\<sigma>1, pv1)"
  shows "ar_InUse (recs \<sigma>1 x) = ar_InUse (recs \<sigma> x) \<and>
         ar_epoch (recs \<sigma>1 x) = ar_epoch (recs \<sigma> x) \<and>
         (ar_unhealthy (recs \<sigma> x) \<longrightarrow> ar_unhealthy (recs \<sigma>1 x)) \<and>
         ap_RefCount pv1 = ap_RefCount pv \<and> ap_as pv1 = ap_as pv \<and>
         (ap_epoch pv = E \<longrightarrow> ap_epoch pv1 = E)"
  using assms
proof (induction avs arbitrary: \<sigma> pv)
  case Nil
  then show ?case by simp
next
  case (Cons y avs)
  obtain ak av where y: "y = (ak, av)" by (cases y)
  obtain \<sigma>' pv' where st: "sweepAddress E ak av (\<sigma>, pv) = (\<sigma>', pv')"
    by (cases "sweepAddress E ak av (\<sigma>, pv)")
  have rest: "sweepAddresses E avs (\<sigma>', pv') = (\<sigma>1, pv1)"
    using Cons.prems y st by simp
  from Cons.IH [OF rest] sweepAddress_records [OF st, of x] sweepAddress_pool(1,3) [OF st]
  show ?case by auto
qed

text \<open>
  A key of the pool survives the sweep of the pool when every entry of that key is
  confirmed or in use; an entry that is in use and not confirmed makes its record
  unhealthy and keeps the pool.
\<close>

lemma sweepAddresses_target:
  assumes "sweepAddresses E avs (\<sigma>, pv) = (\<sigma>1, pv1)"
    and "\<forall>(ak, av) \<in> set avs. ak = a \<longrightarrow> ar_epoch (recs \<sigma> av) = E \<or> ar_InUse (recs \<sigma> av)"
  shows "map_of (ap_Addresses pv1) a = map_of (ap_Addresses pv) a \<and>
         (\<forall>r. (a, r) \<in> set avs \<longrightarrow> ar_epoch (recs \<sigma> r) \<noteq> E
               \<longrightarrow> ar_unhealthy (recs \<sigma>1 r) \<and> ap_epoch pv1 = E)"
  using assms
proof (induction avs arbitrary: \<sigma> pv)
  case Nil
  then show ?case by simp
next
  case (Cons y avs)
  obtain ak av where y: "y = (ak, av)" by (cases y)
  obtain \<sigma>' pv' where st: "sweepAddress E ak av (\<sigma>, pv) = (\<sigma>', pv')"
    by (cases "sweepAddress E ak av (\<sigma>, pv)")
  have rest: "sweepAddresses E avs (\<sigma>', pv') = (\<sigma>1, pv1)"
    using Cons.prems(1) y st by simp
  have c2: "\<forall>(ak, av) \<in> set avs. ak = a \<longrightarrow> ar_epoch (recs \<sigma>' av) = E \<or> ar_InUse (recs \<sigma>' av)"
    using Cons.prems(2) sweepAddress_records(1,2) [OF st] by auto
  note ih = Cons.IH [OF rest c2]
  note later = sweepAddresses_records [OF rest]
  have keep: "map_of (ap_Addresses pv') a = map_of (ap_Addresses pv) a"
  proof (cases "ak = a")
    case True
    then have "ar_epoch (recs \<sigma> av) = E \<or> ar_InUse (recs \<sigma> av)"
      using Cons.prems(2) y by auto
    from sweepAddress_pool(5) [OF st this] show ?thesis by simp
  next
    case False
    then show ?thesis using sweepAddress_pool(4) [OF st, of a] by simp
  qed
  have mark: "ar_unhealthy (recs \<sigma>1 av) \<and> ap_epoch pv1 = E"
    if "ak = a" "ar_epoch (recs \<sigma> av) \<noteq> E"
  proof -
    have iu: "ar_InUse (recs \<sigma> av)" using Cons.prems(2) y that by auto
    have "ar_unhealthy (recs \<sigma>' av)" using sweepAddress_pool(6) [OF st that(2) iu] .
    moreover have "ap_epoch pv' = E" using sweepAddress_pool(5) [OF st] iu by simp
    ultimately show ?thesis using later [of av] by simp
  qed
  show ?case
    using ih keep mark y sweepAddress_records(2) [OF st] by auto
qed

lemma sweepPool_props:
  assumes "sweepPool k pv (\<sigma>, as) = (\<sigma>1, as1)"
  shows "ar_InUse (recs \<sigma>1 x) = ar_InUse (recs \<sigma> x)"
    and "ar_epoch (recs \<sigma>1 x) = ar_epoch (recs \<sigma> x)"
    and "ar_unhealthy (recs \<sigma> x) \<Longrightarrow> ar_unhealthy (recs \<sigma>1 x)"
    and "k' \<noteq> k \<Longrightarrow> map_of (as_Pools as1) k' = map_of (as_Pools as) k'"
proof -
  obtain \<sigma>' pv' where sa: "sweepAddresses (as_epoch as) (ap_Addresses pv) (\<sigma>, pv) = (\<sigma>', pv')"
    by (cases "sweepAddresses (as_epoch as) (ap_Addresses pv) (\<sigma>, pv)")
  note r = sweepAddresses_records [OF sa, of x]
  have s: "\<sigma>1 = \<sigma> \<or> \<sigma>1 = \<sigma>'"
    using assms sa by (auto simp: sweepPool_def split: if_splits)
  show "ar_InUse (recs \<sigma>1 x) = ar_InUse (recs \<sigma> x)" using s r by auto
  show "ar_epoch (recs \<sigma>1 x) = ar_epoch (recs \<sigma> x)" using s r by auto
  show "ar_unhealthy (recs \<sigma> x) \<Longrightarrow> ar_unhealthy (recs \<sigma>1 x)" using s r by auto
  show "k' \<noteq> k \<Longrightarrow> map_of (as_Pools as1) k' = map_of (as_Pools as) k'"
    using assms sa by (auto simp: sweepPool_def update_conv' split: if_splits)
qed

lemma sweepPools_props:
  assumes "sweepPools ps (\<sigma>, as) = (\<sigma>1, as1)"
  shows "ar_InUse (recs \<sigma>1 x) = ar_InUse (recs \<sigma> x) \<and>
         ar_epoch (recs \<sigma>1 x) = ar_epoch (recs \<sigma> x) \<and>
         (ar_unhealthy (recs \<sigma> x) \<longrightarrow> ar_unhealthy (recs \<sigma>1 x)) \<and>
         (k \<notin> fst ` set ps \<longrightarrow> map_of (as_Pools as1) k = map_of (as_Pools as) k)"
  using assms
proof (induction ps arbitrary: \<sigma> as)
  case Nil
  then show ?case by simp
next
  case (Cons y ps)
  obtain pk pv where y: "y = (pk, pv)" by (cases y)
  obtain \<sigma>' as' where st: "sweepPool pk pv (\<sigma>, as) = (\<sigma>', as')"
    by (cases "sweepPool pk pv (\<sigma>, as)")
  have rest: "sweepPools ps (\<sigma>', as') = (\<sigma>1, as1)"
    using Cons.prems y st by simp
  from Cons.IH [OF rest] sweepPool_props(1,2,3) [OF st, of x] sweepPool_props(4) [OF st, of k] y
  show ?case by auto
qed

lemma sweepPools_append: "sweepPools (xs @ ys) s = sweepPools ys (sweepPools xs s)"
proof (induction xs arbitrary: s)
  case Nil
  show ?case by simp
next
  case (Cons x xs)
  show ?case by (cases x) (simp add: Cons.IH)
qed

lemma sweepPool_target:
  assumes st: "sweepPool k pv (\<sigma>, as) = (\<sigma>1, as1)"
    and stale: "ap_epoch pv < as_epoch as"
    and dist: "distinct (map fst (ap_Addresses pv))"
    and slot: "map_of (ap_Addresses pv) a = Some r"
    and used: "ar_InUse (recs \<sigma> r)"
    and old: "ar_epoch (recs \<sigma> r) \<noteq> as_epoch as"
  shows "\<exists>p1. map_of (as_Pools as1) k = Some p1 \<and> map_of (ap_Addresses p1) a = Some r \<and>
              ar_unhealthy (recs \<sigma>1 r) \<and> ap_as p1 = ap_as pv"
proof -
  obtain \<sigma>' pv' where sa: "sweepAddresses (as_epoch as) (ap_Addresses pv) (\<sigma>, pv) = (\<sigma>', pv')"
    by (cases "sweepAddresses (as_epoch as) (ap_Addresses pv) (\<sigma>, pv)")
  have mem: "(a, r) \<in> set (ap_Addresses pv)"
    using slot by (rule map_of_SomeD)
  have uniq: "\<forall>(ak, av) \<in> set (ap_Addresses pv). ak = a \<longrightarrow> av = r"
    using eq_key_imp_eq_value [OF dist _ mem] by auto
  have c: "\<forall>(ak, av) \<in> set (ap_Addresses pv). ak = a \<longrightarrow>
             ar_epoch (recs \<sigma> av) = as_epoch as \<or> ar_InUse (recs \<sigma> av)"
    using uniq used by auto
  from sweepAddresses_target [OF sa c] mem old slot
  have t: "map_of (ap_Addresses pv') a = Some r" "ar_unhealthy (recs \<sigma>' r)" "ap_epoch pv' = as_epoch as"
    by auto
  have t4: "ap_as pv' = ap_as pv"
    using sweepAddresses_records [OF sa] by simp
  have "\<sigma>1 = \<sigma>'" and "as_Pools as1 = AList.update k pv' (as_Pools as)"
    using st sa stale t(3) by (auto simp: sweepPool_def)
  with t t4 show ?thesis by (simp add: update_conv')
qed

lemma sweepPools_target:
  assumes run: "sweepPools ps (\<sigma>, as) = (\<sigma>1, as1)"
    and keys: "distinct (map fst ps)"
    and mem: "(k, pv) \<in> set ps"
    and stale: "ap_epoch pv < as_epoch as"
    and dist: "distinct (map fst (ap_Addresses pv))"
    and slot: "map_of (ap_Addresses pv) a = Some r"
    and used: "ar_InUse (recs \<sigma> r)"
    and old: "ar_epoch (recs \<sigma> r) \<noteq> as_epoch as"
  shows "\<exists>p1. map_of (as_Pools as1) k = Some p1 \<and> map_of (ap_Addresses p1) a = Some r \<and>
              ar_unhealthy (recs \<sigma>1 r) \<and> ap_as p1 = ap_as pv"
proof -
  from mem obtain xs ys where ps: "ps = xs @ (k, pv) # ys"
    by (auto simp: in_set_conv_decomp)
  have kx: "k \<notin> fst ` set xs" and ky: "k \<notin> fst ` set ys"
    using keys ps by auto
  obtain \<sigma>a asa where a: "sweepPools xs (\<sigma>, as) = (\<sigma>a, asa)"
    by (cases "sweepPools xs (\<sigma>, as)")
  obtain \<sigma>b asb where b: "sweepPool k pv (\<sigma>a, asa) = (\<sigma>b, asb)"
    by (cases "sweepPool k pv (\<sigma>a, asa)")
  have c: "sweepPools ys (\<sigma>b, asb) = (\<sigma>1, as1)"
    using run ps a b by (simp add: sweepPools_append)
  have ea: "as_epoch asa = as_epoch as" using sweepPools_epoch [OF a] .
  note ra = sweepPools_props [OF a, of r k]
  have "\<exists>p1. map_of (as_Pools asb) k = Some p1 \<and> map_of (ap_Addresses p1) a = Some r \<and>
              ar_unhealthy (recs \<sigma>b r) \<and> ap_as p1 = ap_as pv"
    using sweepPool_target [OF b _ dist slot] stale used old ea ra by simp
  then obtain p1 where p1: "map_of (as_Pools asb) k = Some p1" "map_of (ap_Addresses p1) a = Some r"
      "ar_unhealthy (recs \<sigma>b r)" "ap_as p1 = ap_as pv"
    by blast
  from sweepPools_props [OF c, of r k] ky p1 show ?thesis by auto
qed

lemma releaseAddress_deletes:
  assumes "a \<noteq> ''''" and "map_of (ap_Addresses p) a = Some r"
    and "ar_epoch (recs \<sigma> r) < as_epoch as"
    and "releaseAddress \<sigma> as p a options = (\<sigma>2, p2, None)"
  shows "map_of (ap_Addresses p2) a = None"
  using assms
  by (auto simp: releaseAddress_def Let_def updRec_def delete_conv' split: if_splits spacePtr.splits)

lemma releaseAddress_unregistered:
  assumes "a \<noteq> ''''" and "map_of (ap_Addresses p) a = None"
    and "releaseAddress \<sigma> as p a options = (\<sigma>2, p2, None)"
  shows "map_of (ap_Addresses p2) a = None"
  using assms
  by (auto simp: releaseAddress_def Let_def split: if_splits)

lemma releaseAddress_succeeds:
  assumes "a \<noteq> ''''" and "map_of (ap_Addresses p) a = Some r"
    and "ar_InUse (recs \<sigma> r)" and "ap_as p = ownerSpace"
  shows "\<exists>\<sigma>2 p2. releaseAddress \<sigma> as p a None = (\<sigma>2, p2, None)"
  using assms
  by (auto simp: releaseAddress_def Let_def optGet_def)

text \<open>
  C1 (amended). Let the live space have distinct pool keys, an epoch below the largest
  \<^verbatim>\<open>int\<close> (where \<^verbatim>\<open>as.epoch + 1\<close> does not wrap around), a pool \<open>pk\<close> with
  distinct address keys whose epoch is not ahead of the space, and in it an address
  \<open>a\<close> whose record \<open>r\<close> is in use, has an epoch not ahead of the space, and is
  referred to from no other place of the live space or of the snapshot. Let the
  snapshot not list \<open>a\<close> in its pool \<open>pk\<close> (or hold no such pool), and let the merge
  adopt or reconfirm some pool or record, so that the epoch advances. Then after the
  merge the pool is still in the live space and still holds \<open>a\<close>, the record is in
  use and unhealthy, every successful release of \<open>a\<close> leaves \<open>a\<close> out of the pool's
  addresses, and when the pool has its back pointer the release without options is
  such a successful one.
\<close>

theorem merge_keeps_in_use_address:
  assumes keys: "distinct (map fst (as_Pools as))"
    and pool: "map_of (as_Pools as) pk = Some ap"
    and akeys: "distinct (map fst (ap_Addresses ap))"
    and slot: "map_of (ap_Addresses ap) a = Some r"
    and nonempty: "a \<noteq> ''''"
    and used: "ar_InUse (recs \<sigma> r)"
    and pe: "ap_epoch ap \<le> as_epoch as"
    and re: "ar_epoch (recs \<sigma> r) \<le> as_epoch as"
    and lo: "minInt \<le> as_epoch as" and hi: "as_epoch as < maxInt"
    and adv: "adoptsOrReconfirms as newas"
    and gone: "\<forall>(k, pv) \<in> set (as_Pools newas). k = pk \<longrightarrow> a \<notin> fst ` set (ap_Addresses pv)"
    and own: "\<forall>k a'. lookupAddr as k a' = Some r \<longrightarrow> k = pk \<and> a' = a"
    and fresh: "\<forall>(k, pv) \<in> set (as_Pools newas). r \<notin> set (poolRefs pv)"
  shows "\<exists>\<sigma>1 as1 newas1 ap1.
      merge \<sigma> as newas = (\<sigma>1, as1, newas1) \<and>
      map_of (as_Pools as1) pk = Some ap1 \<and>
      map_of (ap_Addresses ap1) a = Some r \<and>
      ar_InUse (recs \<sigma>1 r) \<and> ar_unhealthy (recs \<sigma>1 r) \<and>
      (\<forall>options \<sigma>2 ap2. releaseAddress \<sigma>1 as1 ap1 a options = (\<sigma>2, ap2, None)
          \<longrightarrow> map_of (ap_Addresses ap2) a = None) \<and>
      (ap_as ap = ownerSpace \<longrightarrow> (\<exists>\<sigma>2 ap2. releaseAddress \<sigma>1 as1 ap1 a None = (\<sigma>2, ap2, None)))"
proof -
  define e where "e = as_epoch as + 1"
  obtain \<sigma>a asa newasa u where
    p1: "mergePools e (as_Pools newas) (\<sigma>, as, newas, False) = (\<sigma>a, asa, newasa, u)"
    by (cases "mergePools e (as_Pools newas) (\<sigma>, as, newas, False)")
  have u: "u" and ea: "as_epoch asa = as_epoch as"
    using mergePools_epoch [OF p1] adv by (simp_all add: adoptsOrReconfirms_def)
  define as2 where "as2 = asa\<lparr> as_epoch := e \<rparr>"
  obtain \<sigma>b asb where p2: "sweepPools (as_Pools as2) (\<sigma>a, as2) = (\<sigma>b, asb)"
    by (cases "sweepPools (as_Pools as2) (\<sigma>a, as2)")
  have m: "merge \<sigma> as newas = (\<sigma>b, asb, newasa)"
    using p1 p2 u by (simp add: merge_def Let_def e_def as2_def wrapInt_succ [OF lo hi])
  have gone': "\<forall>(k, pv) \<in> set (as_Pools newas). \<forall>ak \<in> fst ` set (ap_Addresses pv).
                 lookupAddr as k ak \<noteq> Some r"
    using gone own by fastforce
  note fr = mergePools_frame [OF p1 fresh gone']
  have ra: "recs \<sigma>a r = recs \<sigma> r" using fr by simp
  have keys2: "distinct (map fst (as_Pools as2))"
    using fr keys by (simp add: as2_def)
  from mergePools_pool [OF p1 pool] obtain pa where
    pa: "map_of (as_Pools asa) pk = Some pa" "pa = ap\<lparr> ap_Addresses := ap_Addresses pa \<rparr>"
      "distinct (map fst (ap_Addresses pa))"
    using akeys by blast
  have pae: "ap_epoch pa = ap_epoch ap" and paa: "ap_as pa = ap_as ap"
    using pa(2) by (metis addressPool.select_convs addressPool.surjective addressPool.update_convs(6))+
  have "lookupAddr as pk a = Some r"
    using pool slot by (simp add: lookupAddr_def)
  then have "lookupAddr asa pk a = Some r" using fr by simp
  then have slot2: "map_of (ap_Addresses pa) a = Some r"
    using pa(1) by (simp add: lookupAddr_def)
  have mem: "(pk, pa) \<in> set (as_Pools as2)"
    using pa(1) by (auto simp: as2_def dest: map_of_SomeD)
  have stale: "ap_epoch pa < as_epoch as2"
    using pae pe by (simp add: as2_def e_def)
  have used2: "ar_InUse (recs \<sigma>a r)" using ra used by simp
  have old: "ar_epoch (recs \<sigma>a r) \<noteq> as_epoch as2"
    using ra re by (simp add: as2_def e_def)
  from sweepPools_target [OF p2 keys2 mem stale pa(3) slot2 used2 old] obtain pb where
    pb: "map_of (as_Pools asb) pk = Some pb" "map_of (ap_Addresses pb) a = Some r"
      "ar_unhealthy (recs \<sigma>b r)" "ap_as pb = ap_as pa"
    by blast
  note rb = sweepPools_props [OF p2, of r pk]
  have used3: "ar_InUse (recs \<sigma>b r)" using rb used2 by simp
  have eb: "as_epoch asb = e"
    using sweepPools_epoch [OF p2] by (simp add: as2_def)
  have lt: "ar_epoch (recs \<sigma>b r) < as_epoch asb"
    using rb ra re eb by (simp add: e_def)
  have rel: "\<forall>options \<sigma>2 ap2. releaseAddress \<sigma>b asb pb a options = (\<sigma>2, ap2, None)
          \<longrightarrow> map_of (ap_Addresses ap2) a = None"
    using releaseAddress_deletes [OF nonempty pb(2) lt] by blast
  have ex: "ap_as ap = ownerSpace \<longrightarrow> (\<exists>\<sigma>2 ap2. releaseAddress \<sigma>b asb pb a None = (\<sigma>2, ap2, None))"
    using releaseAddress_succeeds [OF nonempty pb(2) used3] pb(4) paa by simp
  show ?thesis
    using m pb used3 rel ex by blast
qed

theorem merge_keeps_in_use_address_witness:
  "\<exists>\<sigma>1 as1 newas1 ap1.
      merge mergeStore liveSpace snapshot = (\<sigma>1, as1, newas1) \<and>
      map_of (as_Pools as1) ''10.0.0.0/24'' = Some ap1 \<and>
      map_of (ap_Addresses ap1) ''10.0.0.4'' = Some 0 \<and>
      ar_InUse (recs \<sigma>1 0) \<and> ar_unhealthy (recs \<sigma>1 0) \<and>
      (\<exists>\<sigma>2 ap2. releaseAddress \<sigma>1 as1 ap1 ''10.0.0.4'' None = (\<sigma>2, ap2, None) \<and>
                 map_of (ap_Addresses ap2) ''10.0.0.4'' = None)"
proof -
  have keys: "distinct (map fst (as_Pools liveSpace))"
    and pool: "map_of (as_Pools liveSpace) ''10.0.0.0/24'' = Some heldPool"
    and akeys: "distinct (map fst (ap_Addresses heldPool))"
    and slot: "map_of (ap_Addresses heldPool) ''10.0.0.4'' = Some 0"
    and nonempty: "''10.0.0.4'' \<noteq> ''''"
    and used: "ar_InUse (recs mergeStore 0)"
    and pe: "ap_epoch heldPool \<le> as_epoch liveSpace"
    and re: "ar_epoch (recs mergeStore 0) \<le> as_epoch liveSpace"
    and lo: "minInt \<le> as_epoch liveSpace" and hi: "as_epoch liveSpace < maxInt"
    and owner: "ap_as heldPool = ownerSpace"
    by (simp_all add: merge_example_defs example_defs minInt_def maxInt_def)
  have gone: "\<forall>(k, pv) \<in> set (as_Pools snapshot). k = ''10.0.0.0/24'' \<longrightarrow>
                ''10.0.0.4'' \<notin> fst ` set (ap_Addresses pv)"
    by (simp add: merge_example_defs example_defs)
  have own: "\<forall>k a'. lookupAddr liveSpace k a' = Some 0 \<longrightarrow> k = ''10.0.0.0/24'' \<and> a' = ''10.0.0.4''"
    by (auto simp: lookupAddr_def merge_example_defs example_defs split: if_splits)
  have fresh: "\<forall>(k, pv) \<in> set (as_Pools snapshot). 0 \<notin> set (poolRefs pv)"
    by (simp add: poolRefs_def merge_example_defs example_defs)
  from merge_keeps_in_use_address [OF keys pool akeys slot nonempty used pe re lo hi adopts_example gone own fresh]
    owner
  show ?thesis by blast
qed

text \<open>
  The claim as stated covers every snapshot. A snapshot without pools adopts and
  reconfirms nothing: the epoch stays, the sweep finds no stale pool, the address in use
  is not marked unhealthy, and its release by the holder leaves the record in the pool.
\<close>

theorem merge_empty_snapshot_counterexample:
  "map_of (as_Pools liveSpace) ''10.0.0.0/24'' = Some heldPool \<and>
   map_of (ap_Addresses heldPool) ''10.0.0.4'' = Some 0 \<and>
   ar_InUse (recs mergeStore 0) \<and>
   as_Pools emptySpace = [] \<and>
   fst (snd mergedEmpty) = liveSpace \<and>
   ar_InUse (recs (fst mergedEmpty) 0) \<and>
   \<not> ar_unhealthy (recs (fst mergedEmpty) 0) \<and>
   snd (snd releasedAfterEmpty) = None \<and>
   map_of (ap_Addresses (fst (snd releasedAfterEmpty))) ''10.0.0.4'' = Some 0"
  by (simp add: releasedAfterEmpty_def mergedEmpty_def merge_def sweepPool_def
      merge_example_defs address_defs example_defs wrapInt_one)

subsection \<open>Merge: the records of an adopted pool\<close>

lemma mergePool_other:
  assumes "mergePool e pk' pv (\<sigma>, as, newas, u) = (\<sigma>1, as1, newas1, u1)"
  shows "k \<noteq> pk' \<Longrightarrow> map_of (as_Pools as1) k = map_of (as_Pools as) k"
    and "distinct (map fst (as_Pools as)) \<Longrightarrow> distinct (map fst (as_Pools as1))"
  using assms
  by (auto simp: mergePool_def update_conv' distinct_update split: option.splits prod.splits)

lemma mergePools_other:
  assumes "mergePools e ps (\<sigma>, as, newas, u) = (\<sigma>1, as1, newas1, u1)"
  shows "(k \<notin> fst ` set ps \<longrightarrow> map_of (as_Pools as1) k = map_of (as_Pools as) k) \<and>
         (distinct (map fst (as_Pools as)) \<longrightarrow> distinct (map fst (as_Pools as1)))"
  using assms
proof (induction ps arbitrary: \<sigma> as newas u)
  case Nil
  then show ?case by simp
next
  case (Cons x ps)
  obtain pk' pv where x: "x = (pk', pv)" by (cases x)
  obtain \<sigma>' as' newas' u' where st: "mergePool e pk' pv (\<sigma>, as, newas, u) = (\<sigma>', as', newas', u')"
    by (cases "mergePool e pk' pv (\<sigma>, as, newas, u)")
  have rest: "mergePools e ps (\<sigma>', as', newas', u') = (\<sigma>1, as1, newas1, u1)"
    using Cons.prems(1) x st by simp
  from Cons.IH [OF rest] mergePool_other(1) [OF st, of k] mergePool_other(2) [OF st] x
  show ?case by auto
qed

lemma sweepPools_fresh_pool:
  assumes "sweepPools ps (\<sigma>, as) = (\<sigma>1, as1)"
    and "\<forall>(k, p) \<in> set ps. k = pk \<longrightarrow> \<not> ap_epoch p < as_epoch as"
  shows "map_of (as_Pools as1) pk = map_of (as_Pools as) pk"
  using assms
proof (induction ps arbitrary: \<sigma> as)
  case Nil
  then show ?case by simp
next
  case (Cons y ps)
  obtain k p where y: "y = (k, p)" by (cases y)
  obtain \<sigma>' as' where st: "sweepPool k p (\<sigma>, as) = (\<sigma>', as')"
    by (cases "sweepPool k p (\<sigma>, as)")
  have rest: "sweepPools ps (\<sigma>', as') = (\<sigma>1, as1)"
    using Cons.prems(1) y st by simp
  have ep: "as_epoch as' = as_epoch as" using sweepPool_epoch [OF st] .
  have c: "\<forall>(k, p) \<in> set ps. k = pk \<longrightarrow> \<not> ap_epoch p < as_epoch as'"
    using Cons.prems(2) ep by auto
  have step: "map_of (as_Pools as') pk = map_of (as_Pools as) pk"
  proof (cases "k = pk")
    case True
    then have "\<not> ap_epoch p < as_epoch as" using Cons.prems(2) y by auto
    then show ?thesis using st by (simp add: sweepPool_def)
  next
    case False
    then show ?thesis using sweepPool_props(4) [OF st, of pk] by simp
  qed
  from Cons.IH [OF rest c] step show ?case by simp
qed

lemma request_then_release_deletes:
  assumes "a \<noteq> ''''" and "map_of (ap_Addresses p) a = Some r" and "\<not> ar_InUse (recs \<sigma> r)"
    and "ap_as p = ownerSpace" and "ar_epoch (recs \<sigma> r) < as_epoch as"
  shows "\<exists>\<sigma>2 p2 cidr \<sigma>3 p3.
           requestAddress \<sigma> p a None = (\<sigma>2, p2, Inr cidr) \<and>
           releaseAddress \<sigma>2 as p2 a None = (\<sigma>3, p3, None) \<and>
           map_of (ap_Addresses p3) a = None"
  using assms
  by (simp add: requestAddress_def selectAddress_def releaseAddress_def optGet_def updRec_def
      Let_def delete_conv')

text \<open>The constructors: what a successful call leaves.\<close>

lemma newAddressPool_created:
  assumes "newAddressPool as ifName nwName priority subnet = (as1, pk, None)"
  shows "map_of (as_Pools as) pk = None"
    and "\<exists>p. as1 = as\<lparr> as_Pools := AList.update pk p (as_Pools as) \<rparr> \<and>
             ap_epoch p = as_epoch as \<and> ap_as p = ownerSpace \<and> ap_addrsByID p = [] \<and>
             ap_Addresses p = []"
  using assms by (auto simp: newAddressPool_def Let_def split: option.splits)

lemma newAddressRecord_created:
  assumes "newAddressRecord \<sigma> ap addr = (\<sigma>1, ap1, Inr ar)"
  shows "ar = nextRef \<sigma>" and "nextRef \<sigma>1 = Suc (nextRef \<sigma>)"
    and "recs \<sigma>1 = (recs \<sigma>)(ar := \<lparr> ar_ID = '''', ar_Addr = addr, ar_InUse = False,
                                   ar_unhealthy = False, ar_epoch = ap_epoch ap \<rparr>)"
    and "map_of (ap_Addresses ap) (IP_String addr) = None"
    and "ap1 = ap\<lparr> ap_Addresses := AList.update (IP_String addr) ar (ap_Addresses ap) \<rparr>"
  using assms
  by (auto simp: newAddressRecord_def Let_def alloc_def split: option.splits if_splits)

lemma built_inv:
  assumes "built n \<sigma> newas"
  shows "as_epoch newas = 0 \<and> n \<le> nextRef \<sigma> \<and>
         distinct (map fst (as_Pools newas)) \<and>
         (\<forall>k p. map_of (as_Pools newas) k = Some p \<longrightarrow>
            ap_epoch p = 0 \<and> ap_as p = ownerSpace \<and> ap_addrsByID p = [] \<and>
            distinct (map fst (ap_Addresses p))) \<and>
         (\<forall>k a r. lookupAddr newas k a = Some r \<longrightarrow>
            n \<le> r \<and> r < nextRef \<sigma> \<and> ar_epoch (recs \<sigma> r) = 0 \<and> \<not> ar_InUse (recs \<sigma> r) \<and>
            ar_ID (recs \<sigma> r) = '''' \<and> a = IP_String (ar_Addr (recs \<sigma> r))) \<and>
         (\<forall>k a k' a' r. lookupAddr newas k a = Some r \<longrightarrow> lookupAddr newas k' a' = Some r
            \<longrightarrow> k = k' \<and> a = a')"
  using assms
proof (induction rule: built.induct)
  case (new_space spaceId scope newas \<sigma>)
  then show ?case
    by (auto simp: newAddressSpace_def lookupAddr_def split: if_splits)
next
  case (new_pool n \<sigma> newas ifName nwName priority subnet newas1 pk)
  from newAddressPool_created [OF new_pool.hyps(2)] obtain p where
    absent: "map_of (as_Pools newas) pk = None"
    and n1: "newas1 = newas\<lparr> as_Pools := AList.update pk p (as_Pools newas) \<rparr>"
    and p: "ap_epoch p = as_epoch newas" "ap_as p = ownerSpace" "ap_addrsByID p = []" "ap_Addresses p = []"
    by blast
  have l: "lookupAddr newas1 k a = (if k = pk then None else lookupAddr newas k a)" for k a
    using p(4) by (simp add: lookupAddr_def n1 update_conv')
  have sub: "lookupAddr newas k a = Some r" if "lookupAddr newas1 k a = Some r" for k a r
    using that l [of k a] by (simp split: if_splits)
  note ih = new_pool.IH
  have i1: "as_epoch newas1 = 0 \<and> n \<le> nextRef \<sigma> \<and> distinct (map fst (as_Pools newas1))"
    using ih by (simp add: n1 distinct_update)
  have i3: "\<forall>k p. map_of (as_Pools newas1) k = Some p \<longrightarrow>
            ap_epoch p = 0 \<and> ap_as p = ownerSpace \<and> ap_addrsByID p = [] \<and>
            distinct (map fst (ap_Addresses p))"
    using ih p by (auto simp: n1 update_conv' split: if_splits)
  have i4: "\<forall>k a r. lookupAddr newas1 k a = Some r \<longrightarrow>
            n \<le> r \<and> r < nextRef \<sigma> \<and> ar_epoch (recs \<sigma> r) = 0 \<and> \<not> ar_InUse (recs \<sigma> r) \<and>
            ar_ID (recs \<sigma> r) = '''' \<and> a = IP_String (ar_Addr (recs \<sigma> r))"
    using ih sub by blast
  have i5: "\<forall>k a k' a' r. lookupAddr newas1 k a = Some r \<longrightarrow> lookupAddr newas1 k' a' = Some r
            \<longrightarrow> k = k' \<and> a = a'"
    using ih sub by blast
  show ?case
    using i1 i3 i4 i5 by blast
next
  case (new_record n \<sigma> newas pk ap addr \<sigma>1 ap1 ar)
  note c = newAddressRecord_created [OF new_record.hyps(3)]
  note ih = new_record.IH
  define N1 where "N1 = newas\<lparr> as_Pools := AList.update pk ap1 (as_Pools newas) \<rparr>"
  have l: "lookupAddr N1 k a =
             (if k = pk \<and> a = IP_String addr then Some ar else lookupAddr newas k a)" for k a
    using new_record.hyps(2) c(4,5) by (auto simp: lookupAddr_def N1_def update_conv')
  have old: "r < nextRef \<sigma>" if "lookupAddr newas k a = Some r" for k a r
    using ih that by blast
  have ne: "r \<noteq> ar" if "lookupAddr newas k a = Some r" for k a r
    using old [OF that] c(1) by simp
  have pe: "ap_epoch ap = 0" using ih new_record.hyps(2) by blast
  have i1: "as_epoch N1 = 0 \<and> n \<le> nextRef \<sigma>1 \<and> distinct (map fst (as_Pools N1))"
    using ih c(2) by (simp add: N1_def distinct_update)
  have i3: "\<forall>k p. map_of (as_Pools N1) k = Some p \<longrightarrow>
            ap_epoch p = 0 \<and> ap_as p = ownerSpace \<and> ap_addrsByID p = [] \<and>
            distinct (map fst (ap_Addresses p))"
    using ih new_record.hyps(2) c(5) by (auto simp: N1_def update_conv' distinct_update split: if_splits)
  have i4: "\<forall>k a r. lookupAddr N1 k a = Some r \<longrightarrow>
            n \<le> r \<and> r < nextRef \<sigma>1 \<and> ar_epoch (recs \<sigma>1 r) = 0 \<and> \<not> ar_InUse (recs \<sigma>1 r) \<and>
            ar_ID (recs \<sigma>1 r) = '''' \<and> a = IP_String (ar_Addr (recs \<sigma>1 r))"
  proof (intro allI impI)
    fix k a r assume h: "lookupAddr N1 k a = Some r"
    show "n \<le> r \<and> r < nextRef \<sigma>1 \<and> ar_epoch (recs \<sigma>1 r) = 0 \<and> \<not> ar_InUse (recs \<sigma>1 r) \<and>
            ar_ID (recs \<sigma>1 r) = '''' \<and> a = IP_String (ar_Addr (recs \<sigma>1 r))"
    proof (cases "k = pk \<and> a = IP_String addr")
      case True
      then have "r = ar" using h l by (auto split: if_splits)
      then show ?thesis using True c(1,2,3) pe ih by simp
    next
      case False
      then have o: "lookupAddr newas k a = Some r" using h l by (auto split: if_splits)
      have "r \<noteq> ar" using ne [OF o] .
      then have "recs \<sigma>1 r = recs \<sigma> r" using c(3) by simp
      moreover have "n \<le> r \<and> r < nextRef \<sigma> \<and> ar_epoch (recs \<sigma> r) = 0 \<and> \<not> ar_InUse (recs \<sigma> r) \<and>
            ar_ID (recs \<sigma> r) = '''' \<and> a = IP_String (ar_Addr (recs \<sigma> r))"
        using ih o by blast
      ultimately show ?thesis using c(2) by simp
    qed
  qed
  have i5: "\<forall>k a k' a' r. lookupAddr N1 k a = Some r \<longrightarrow> lookupAddr N1 k' a' = Some r
            \<longrightarrow> k = k' \<and> a = a'"
  proof (intro allI impI)
    fix k a k' a' r assume h: "lookupAddr N1 k a = Some r" "lookupAddr N1 k' a' = Some r"
    have inj: "\<forall>k a k' a' r. lookupAddr newas k a = Some r \<longrightarrow> lookupAddr newas k' a' = Some r
            \<longrightarrow> k = k' \<and> a = a'"
      using ih by blast
    show "k = k' \<and> a = a'"
    proof (cases "k = pk \<and> a = IP_String addr")
      case True
      then have r: "r = ar" using h(1) l by (auto split: if_splits)
      show ?thesis
      proof (cases "k' = pk \<and> a' = IP_String addr")
        case True
        with \<open>k = pk \<and> a = IP_String addr\<close> show ?thesis by simp
      next
        case False
        then have "lookupAddr newas k' a' = Some ar" using h(2) l r by (auto split: if_splits)
        from ne [OF this] show ?thesis by simp
      qed
    next
      case False
      then have o: "lookupAddr newas k a = Some r" using h(1) l by (auto split: if_splits)
      show ?thesis
      proof (cases "k' = pk \<and> a' = IP_String addr")
        case True
        then have "r = ar" using h(2) l by (auto split: if_splits)
        with ne [OF o] show ?thesis by simp
      next
        case False
        then have "lookupAddr newas k' a' = Some r" using h(2) l by (auto split: if_splits)
        with o inj show ?thesis by blast
      qed
    qed
  qed
  show ?case
    using i1 i3 i4 i5 unfolding N1_def by blast
qed


text \<open>A merge writes the epoch and the health flag of records, and no other field.\<close>

lemma mergeAddress_ids:
  "mergeAddress e ak av (\<sigma>, p) = (\<sigma>1, p1) \<Longrightarrow>
     ar_Addr (recs \<sigma>1 x) = ar_Addr (recs \<sigma> x) \<and> ar_ID (recs \<sigma>1 x) = ar_ID (recs \<sigma> x) \<and>
     ar_InUse (recs \<sigma>1 x) = ar_InUse (recs \<sigma> x)"
  by (auto simp: mergeAddress_def updRec_def split: option.splits if_splits)

lemma mergeAddresses_ids:
  "mergeAddresses e avs (\<sigma>, p) = (\<sigma>1, p1) \<Longrightarrow>
     ar_Addr (recs \<sigma>1 x) = ar_Addr (recs \<sigma> x) \<and> ar_ID (recs \<sigma>1 x) = ar_ID (recs \<sigma> x) \<and>
     ar_InUse (recs \<sigma>1 x) = ar_InUse (recs \<sigma> x)"
proof (induction avs arbitrary: \<sigma> p)
  case Nil
  then show ?case by simp
next
  case (Cons y avs)
  obtain ak av where y: "y = (ak, av)" by (cases y)
  obtain \<sigma>' p' where st: "mergeAddress e ak av (\<sigma>, p) = (\<sigma>', p')"
    by (cases "mergeAddress e ak av (\<sigma>, p)")
  have rest: "mergeAddresses e avs (\<sigma>', p') = (\<sigma>1, p1)"
    using Cons.prems y st by simp
  from Cons.IH [OF rest] mergeAddress_ids [OF st, of x] show ?case by simp
qed

lemma mergePool_ids:
  assumes "mergePool e pk pv (\<sigma>, as, newas, u) = (\<sigma>1, as1, newas1, u1)"
  shows "ar_Addr (recs \<sigma>1 x) = ar_Addr (recs \<sigma> x) \<and> ar_ID (recs \<sigma>1 x) = ar_ID (recs \<sigma> x) \<and>
     ar_InUse (recs \<sigma>1 x) = ar_InUse (recs \<sigma> x)"
proof (cases "map_of (as_Pools as) pk")
  case None
  with assms show ?thesis by (simp add: mergePool_def)
next
  case (Some p)
  obtain \<sigma>' p' where ma: "mergeAddresses e (ap_Addresses pv) (\<sigma>, p) = (\<sigma>', p')"
    by (cases "mergeAddresses e (ap_Addresses pv) (\<sigma>, p)")
  have "\<sigma>1 = \<sigma>'" using assms Some ma by (auto simp: mergePool_def)
  with mergeAddresses_ids [OF ma, of x] show ?thesis by simp
qed

lemma mergePools_ids:
  "mergePools e ps (\<sigma>, as, newas, u) = (\<sigma>1, as1, newas1, u1) \<Longrightarrow>
     ar_Addr (recs \<sigma>1 x) = ar_Addr (recs \<sigma> x) \<and> ar_ID (recs \<sigma>1 x) = ar_ID (recs \<sigma> x) \<and>
     ar_InUse (recs \<sigma>1 x) = ar_InUse (recs \<sigma> x)"
proof (induction ps arbitrary: \<sigma> as newas u)
  case Nil
  then show ?case by simp
next
  case (Cons y ps)
  obtain pk pv where y: "y = (pk, pv)" by (cases y)
  obtain \<sigma>' as' newas' u' where st: "mergePool e pk pv (\<sigma>, as, newas, u) = (\<sigma>', as', newas', u')"
    by (cases "mergePool e pk pv (\<sigma>, as, newas, u)")
  have rest: "mergePools e ps (\<sigma>', as', newas', u') = (\<sigma>1, as1, newas1, u1)"
    using Cons.prems y st by simp
  from Cons.IH [OF rest] mergePool_ids [OF st, of x] show ?case by simp
qed

lemma sweepAddress_ids:
  "sweepAddress E ak av (\<sigma>, pv) = (\<sigma>1, pv1) \<Longrightarrow>
     ar_Addr (recs \<sigma>1 x) = ar_Addr (recs \<sigma> x) \<and> ar_ID (recs \<sigma>1 x) = ar_ID (recs \<sigma> x)"
  by (auto simp: sweepAddress_def updRec_def split: if_splits)

lemma sweepAddresses_ids:
  "sweepAddresses E avs (\<sigma>, pv) = (\<sigma>1, pv1) \<Longrightarrow>
     ar_Addr (recs \<sigma>1 x) = ar_Addr (recs \<sigma> x) \<and> ar_ID (recs \<sigma>1 x) = ar_ID (recs \<sigma> x)"
proof (induction avs arbitrary: \<sigma> pv)
  case Nil
  then show ?case by simp
next
  case (Cons y avs)
  obtain ak av where y: "y = (ak, av)" by (cases y)
  obtain \<sigma>' pv' where st: "sweepAddress E ak av (\<sigma>, pv) = (\<sigma>', pv')"
    by (cases "sweepAddress E ak av (\<sigma>, pv)")
  have rest: "sweepAddresses E avs (\<sigma>', pv') = (\<sigma>1, pv1)"
    using Cons.prems y st by simp
  from Cons.IH [OF rest] sweepAddress_ids [OF st, of x] show ?case by simp
qed

lemma sweepPool_ids:
  assumes "sweepPool k pv (\<sigma>, as) = (\<sigma>1, as1)"
  shows "ar_Addr (recs \<sigma>1 x) = ar_Addr (recs \<sigma> x) \<and> ar_ID (recs \<sigma>1 x) = ar_ID (recs \<sigma> x)"
proof -
  obtain \<sigma>' pv' where sa: "sweepAddresses (as_epoch as) (ap_Addresses pv) (\<sigma>, pv) = (\<sigma>', pv')"
    by (cases "sweepAddresses (as_epoch as) (ap_Addresses pv) (\<sigma>, pv)")
  have "\<sigma>1 = \<sigma> \<or> \<sigma>1 = \<sigma>'"
    using assms sa by (auto simp: sweepPool_def split: if_splits)
  with sweepAddresses_ids [OF sa, of x] show ?thesis by auto
qed

lemma sweepPools_ids:
  "sweepPools ps (\<sigma>, as) = (\<sigma>1, as1) \<Longrightarrow>
     ar_Addr (recs \<sigma>1 x) = ar_Addr (recs \<sigma> x) \<and> ar_ID (recs \<sigma>1 x) = ar_ID (recs \<sigma> x)"
proof (induction ps arbitrary: \<sigma> as)
  case Nil
  then show ?case by simp
next
  case (Cons y ps)
  obtain pk pv where y: "y = (pk, pv)" by (cases y)
  obtain \<sigma>' as' where st: "sweepPool pk pv (\<sigma>, as) = (\<sigma>', as')"
    by (cases "sweepPool pk pv (\<sigma>, as)")
  have rest: "sweepPools ps (\<sigma>', as') = (\<sigma>1, as1)"
    using Cons.prems y st by simp
  from Cons.IH [OF rest] sweepPool_ids [OF st, of x] show ?case by simp
qed

lemma merge_ids:
  assumes "merge \<sigma> as newas = (\<sigma>1, as1, newas1)"
  shows "ar_Addr (recs \<sigma>1 x) = ar_Addr (recs \<sigma> x) \<and> ar_ID (recs \<sigma>1 x) = ar_ID (recs \<sigma> x) \<and>
         ar_InUse (recs \<sigma>1 x) = ar_InUse (recs \<sigma> x)"
proof -
  obtain \<sigma>a asa newasa u where
    p1: "mergePools (wrapInt (as_epoch as + 1)) (as_Pools newas) (\<sigma>, as, newas, False)
           = (\<sigma>a, asa, newasa, u)"
    by (cases "mergePools (wrapInt (as_epoch as + 1)) (as_Pools newas) (\<sigma>, as, newas, False)")
  define as2 where "as2 = (if u then asa\<lparr> as_epoch := wrapInt (as_epoch as + 1) \<rparr> else asa)"
  obtain \<sigma>b asb where p2: "sweepPools (as_Pools as2) (\<sigma>a, as2) = (\<sigma>b, asb)"
    by (cases "sweepPools (as_Pools as2) (\<sigma>a, as2)")
  have "\<sigma>1 = \<sigma>b"
    using assms p1 p2 by (simp add: merge_def Let_def as2_def)
  with mergePools_ids [OF p1, of x] sweepPools_ids [OF p2, of x] sweepPools_props [OF p2, of x]
  show ?thesis by simp
qed

lemma optGet_idOptions: "optGet (idOptions x) OptAddressID = x"
  by (simp add: optGet_def idOptions_def)

lemma request_then_release_by_id:
  assumes slot: "map_of (ap_Addresses p) a = Some r" and free: "\<not> ar_InUse (recs \<sigma> r)"
    and owner: "ap_as p = ownerSpace" and old: "ar_epoch (recs \<sigma> r) < as_epoch as"
    and key: "a = IP_String (ar_Addr (recs \<sigma> r))" and x: "x \<noteq> ''''"
  shows "\<exists>\<sigma>2 p2 cidr. requestAddress \<sigma> p a (idOptions x) = (\<sigma>2, p2, Inr cidr) \<and>
           (\<exists>\<sigma>3 p3. releaseAddress \<sigma>2 as p2 '''' (idOptions x) = (\<sigma>3, p3, None) \<and>
                     map_of (ap_Addresses p3) a = None) \<and>
           (\<exists>\<sigma>3 p3. releaseAddress \<sigma>2 as p2 a (idOptions x) = (\<sigma>3, p3, None) \<and>
                     map_of (ap_Addresses p3) a = None)"
proof -
  have ne: "a \<noteq> ''''" using key IP_String_nonempty by simp
  define \<sigma>2 where "\<sigma>2 = updRec \<sigma> r (\<lambda>r. r\<lparr> ar_ID := x, ar_InUse := True \<rparr>)"
  define p2 where "p2 = p\<lparr> ap_addrsByID := AList.update x r (ap_addrsByID p) \<rparr>"
  have rq: "requestAddress \<sigma> p a (idOptions x)
              = (\<sigma>2, p2, Inr (IPNet_String \<lparr> IP = ar_Addr (recs \<sigma> r), Mask = Mask (ap_Subnet p) \<rparr>))"
    using slot free x ne
    by (simp add: requestAddress_def selectAddress_def optGet_idOptions \<sigma>2_def p2_def)
  have r2: "recs \<sigma>2 r = (recs \<sigma> r)\<lparr> ar_ID := x, ar_InUse := True \<rparr>"
    by (simp add: \<sigma>2_def updRec_def)
  have byid: "map_of (ap_addrsByID p2) x = Some r"
    by (simp add: p2_def update_conv')
  have slot2: "map_of (ap_Addresses p2) a = Some r" using slot by (simp add: p2_def)
  have k2: "IP_String (ar_Addr (recs \<sigma>2 r)) = a" using key r2 by simp
  have rel1: "\<exists>\<sigma>3 p3. releaseAddress \<sigma>2 as p2 '''' (idOptions x) = (\<sigma>3, p3, None) \<and>
                     map_of (ap_Addresses p3) a = None"
    using byid r2 k2 x owner old
    by (simp add: releaseAddress_def optGet_idOptions Let_def updRec_def p2_def delete_conv')
  have rel2: "\<exists>\<sigma>3 p3. releaseAddress \<sigma>2 as p2 a (idOptions x) = (\<sigma>3, p3, None) \<and>
                     map_of (ap_Addresses p3) a = None"
    using slot2 r2 ne x owner old
    by (simp add: releaseAddress_def optGet_idOptions Let_def updRec_def p2_def delete_conv')
  show ?thesis using rq rel1 rel2 by blast
qed

lemma merge_adopts_pool:
  assumes keys: "distinct (map fst (as_Pools as))"
    and absent: "map_of (as_Pools as) pk = None"
    and nkeys: "distinct (map fst (as_Pools newas))"
    and mem: "map_of (as_Pools newas) pk = Some pv"
    and lo: "minInt \<le> as_epoch as" and hi: "as_epoch as < maxInt"
  shows "\<exists>\<sigma>1 as1 newas1.
      merge \<sigma> as newas = (\<sigma>1, as1, newas1) \<and>
      as_epoch as1 = as_epoch as + 1 \<and>
      map_of (as_Pools as1) pk = Some (pv\<lparr> ap_as := ownerSpace, ap_epoch := as_epoch as + 1 \<rparr>) \<and>
      (\<forall>r. (\<forall>k a'. lookupAddr as k a' \<noteq> Some r) \<longrightarrow>
           (\<forall>(k, pv') \<in> set (as_Pools newas). k \<noteq> pk \<longrightarrow> r \<notin> set (poolRefs pv')) \<longrightarrow>
           ar_epoch (recs \<sigma>1 r) = ar_epoch (recs \<sigma> r))"
proof -
  define e where "e = as_epoch as + 1"
  define pv1 where "pv1 = pv\<lparr> ap_as := ownerSpace, ap_epoch := e \<rparr>"
  from mem have "(pk, pv) \<in> set (as_Pools newas)" by (rule map_of_SomeD)
  then obtain xs ys where ps: "as_Pools newas = xs @ (pk, pv) # ys"
    by (auto simp: in_set_conv_decomp)
  have kx: "pk \<notin> fst ` set xs" and ky: "pk \<notin> fst ` set ys"
    using nkeys ps by auto
  obtain \<sigma>a asa na ua where a: "mergePools e xs (\<sigma>, as, newas, False) = (\<sigma>a, asa, na, ua)"
    by (cases "mergePools e xs (\<sigma>, as, newas, False)")
  have pa: "map_of (as_Pools asa) pk = None" and da: "distinct (map fst (as_Pools asa))"
    using mergePools_other [OF a, of pk] kx absent keys by simp_all
  define asb where "asb = asa\<lparr> as_Pools := AList.update pk pv1 (as_Pools asa) \<rparr>"
  define nb where "nb = na\<lparr> as_Pools := AList.delete pk (as_Pools na) \<rparr>"
  have b: "mergePool e pk pv (\<sigma>a, asa, na, ua) = (\<sigma>a, asb, nb, True)"
    using pa by (simp add: mergePool_def asb_def nb_def pv1_def)
  obtain \<sigma>c asc nc uc where c: "mergePools e ys (\<sigma>a, asb, nb, True) = (\<sigma>c, asc, nc, uc)"
    by (cases "mergePools e ys (\<sigma>a, asb, nb, True)")
  have all: "mergePools e (as_Pools newas) (\<sigma>, as, newas, False) = (\<sigma>c, asc, nc, uc)"
    using a b c by (simp add: ps mergePools_append)
  have uc: "uc" and ec: "as_epoch asc = as_epoch as"
    using mergePools_epoch [OF c] mergePools_epoch [OF a] by (simp_all add: asb_def)
  have pc: "map_of (as_Pools asc) pk = Some pv1" and dc: "distinct (map fst (as_Pools asc))"
    using mergePools_other [OF c, of pk] ky da by (simp_all add: asb_def update_conv' distinct_update)
  define as2 where "as2 = asc\<lparr> as_epoch := e \<rparr>"
  obtain \<sigma>d asd where d: "sweepPools (as_Pools as2) (\<sigma>c, as2) = (\<sigma>d, asd)"
    by (cases "sweepPools (as_Pools as2) (\<sigma>c, as2)")
  have m: "merge \<sigma> as newas = (\<sigma>d, asd, nc)"
    using all d uc by (simp add: merge_def Let_def e_def as2_def wrapInt_succ [OF lo hi])
  have ed: "as_epoch asd = e"
    using sweepPools_epoch [OF d] by (simp add: as2_def)
  have only: "\<forall>(k, p) \<in> set (as_Pools as2). k = pk \<longrightarrow> \<not> ap_epoch p < as_epoch as2"
  proof (clarify)
    fix p assume "(pk, p) \<in> set (as_Pools as2)" and lt: "ap_epoch p < as_epoch as2"
    then have "map_of (as_Pools asc) pk = Some p"
      using dc by (simp add: as2_def)
    with pc have "p = pv1" by simp
    with lt show False by (simp add: pv1_def as2_def)
  qed
  have pd: "map_of (as_Pools asd) pk = Some pv1"
    using sweepPools_fresh_pool [OF d only] pc by (simp add: as2_def)
  have recs: "ar_epoch (recs \<sigma>d r) = ar_epoch (recs \<sigma> r)"
    if un1: "\<forall>k a'. lookupAddr as k a' \<noteq> Some r"
      and un2: "\<forall>(k, pv') \<in> set (as_Pools newas). k \<noteq> pk \<longrightarrow> r \<notin> set (poolRefs pv')" for r
  proof -
    have other: "r \<notin> set (poolRefs pv')" if "(k, pv') \<in> set (as_Pools newas)" "k \<noteq> pk" for k pv'
      using un2 that by blast
    have fx: "\<forall>(k, pv') \<in> set xs. r \<notin> set (poolRefs pv')"
    proof (clarify)
      fix k pv' assume i: "(k, pv') \<in> set xs" and j: "r \<in> set (poolRefs pv')"
      have "k \<noteq> pk" using i kx by force
      moreover have "(k, pv') \<in> set (as_Pools newas)" using i by (simp add: ps)
      ultimately show False using other j by blast
    qed
    have fy: "\<forall>(k, pv') \<in> set ys. r \<notin> set (poolRefs pv')"
    proof (clarify)
      fix k pv' assume i: "(k, pv') \<in> set ys" and j: "r \<in> set (poolRefs pv')"
      have "k \<noteq> pk" using i ky by force
      moreover have "(k, pv') \<in> set (as_Pools newas)" using i by (simp add: ps)
      ultimately show False using other j by blast
    qed
    have gx: "\<forall>(k, pv') \<in> set xs. \<forall>ak \<in> fst ` set (ap_Addresses pv'). lookupAddr as k ak \<noteq> Some r"
      using un1 by blast
    note fa = mergePools_frame [OF a fx gx]
    have la: "\<forall>k a'. lookupAddr asa k a' \<noteq> Some r" using fa un1 by simp
    have gy: "\<forall>(k, pv') \<in> set ys. \<forall>ak \<in> fst ` set (ap_Addresses pv'). lookupAddr asb k ak \<noteq> Some r"
    proof (clarify)
      fix k pv' ak b
      assume in_ys: "(k, pv') \<in> set ys" and "lookupAddr asb k (fst (ak, b)) = Some r"
      moreover have "k \<noteq> pk" using in_ys ky by force
      ultimately have "lookupAddr asa k ak = Some r"
        by (simp add: lookupAddr_def asb_def update_conv')
      with la show False by simp
    qed
    note fc = mergePools_frame [OF c fy gy]
    have "recs \<sigma>c r = recs \<sigma> r" using fa fc by simp
    moreover have "ar_epoch (recs \<sigma>d r) = ar_epoch (recs \<sigma>c r)"
      using sweepPools_props [OF d, of r pk] by simp
    ultimately show ?thesis by simp
  qed
  have c3: "map_of (as_Pools asd) pk = Some (pv\<lparr> ap_as := ownerSpace, ap_epoch := as_epoch as + 1 \<rparr>)"
    using pd by (simp add: pv1_def e_def)
  have c2: "as_epoch asd = as_epoch as + 1" using ed by (simp add: e_def)
  have c4: "\<forall>r. (\<forall>k a'. lookupAddr as k a' \<noteq> Some r) \<longrightarrow>
           (\<forall>(k, pv') \<in> set (as_Pools newas). k \<noteq> pk \<longrightarrow> r \<notin> set (poolRefs pv')) \<longrightarrow>
           ar_epoch (recs \<sigma>d r) = ar_epoch (recs \<sigma> r)"
    using recs by blast
  show ?thesis
    apply (rule exI [of _ \<sigma>d], rule exI [of _ asd], rule exI [of _ nc])
    apply (intro conjI)
       apply (rule m)
      apply (rule c2)
     apply (rule c3)
    apply (rule c4)
    done
qed

text \<open>
  The epoch of a live space counts merges: it is not negative, and it is at most the
  number of merges the space has been through.
\<close>

lemma live_epoch:
  assumes "live m as" and "int m < maxInt"
  shows "0 \<le> as_epoch as \<and> as_epoch as \<le> int m"
  using assms
proof (induction rule: live.induct)
  case (first n \<sigma> as)
  then show ?case using built_inv [of n \<sigma> as] by simp
next
  case (merged m as \<sigma> newas \<sigma>1 as1 newas1)
  have b: "int m < maxInt" using merged.prems by simp
  note ih = merged.IH [OF b]
  have lo: "minInt \<le> as_epoch as" using ih by (simp add: minInt_def)
  have hi: "as_epoch as < maxInt" using ih b by simp
  from merge_epoch [OF merged.hyps(2)] ih show ?case
    by (simp add: wrapInt_succ [OF lo hi] split: if_splits)
next
  case (pool_requested m as \<sigma> poolId subPoolId options v6 \<sigma>1 as1 res)
  then show ?case using requestPool_epoch [OF pool_requested.hyps(2)] by simp
next
  case (pool_released m as poolId as1 err)
  then show ?case using releasePool_epoch [of as poolId] by simp
next
  case (address_requested m as pk ap \<sigma> address options \<sigma>1 ap1 res)
  then show ?case by simp
next
  case (address_released m as pk ap \<sigma> address options \<sigma>1 ap1 err)
  then show ?case by simp
qed

text \<open>The example snapshot is built by the constructors, and the example live space is live.\<close>

lemma storeOf_alloc: "alloc (storeOf xs) v = (length xs, storeOf (xs @ [v]))"
  by (auto simp: storeOf_def alloc_def fun_eq_iff nth_append)

lemma GenerateAddress_10_0: "GenerateAddress net10_0 defaultGatewayHostId = gw10_0"
  by (simp add: example_defs net_eval GenerateAddress_def defaultGatewayHostId_def)

lemma GenerateAddress_10_1: "GenerateAddress net10_1 defaultGatewayHostId = gw10_1"
  by (simp add: example_defs net_eval GenerateAddress_def defaultGatewayHostId_def)

lemma IPNet_String_24: "IPNet_String net10_0 = ''10.0.0.0/24''" "IPNet_String net10_1 = ''10.1.0.0/24''"
  by (simp_all add: example_defs net_eval)

lemma address_10_0_0_4: "IP_String (v4InV6Prefix @ [10, 0, 0, 4]) = ''10.0.0.4''" "Contains net10_0 (v4InV6Prefix @ [10, 0, 0, 4])"
  by (simp_all add: example_defs net_eval GenerateAddress_def defaultGatewayHostId_def)

lemma address_examples: "IP_String (v4InV6Prefix @ [10, 0, 0, 5]) = ''10.0.0.5''"
   "IP_String (v4InV6Prefix @ [10, 1, 0, 4]) = ''10.1.0.4''"
   "Contains net10_0 (v4InV6Prefix @ [10, 0, 0, 5])"
   "Contains net10_1 (v4InV6Prefix @ [10, 1, 0, 4])"
  by (simp_all add: example_defs net_eval)


lemma To4_examples: "To4 (IP net10_0) \<noteq> []" "To4 (IP net10_1) \<noteq> []"
  by (simp_all add: net10_0_def net10_1_def To4_def)

lemma snapshot_built: "built 2 mergeStore snapshot"
proof -
  have n: "nextRef heldStore = 2" by (simp add: heldStore_def storeOf_def)
  have "built (nextRef heldStore) heldStore emptySpace"
    by (rule built.new_space [of "''local''" LocalScope])
       (simp add: newAddressSpace_def LocalScope_def emptySpace_def)
  then have s0: "built 2 heldStore emptySpace" using n by simp
  define poolA where "poolA = examplePool ''10.0.0.0/24'' ''eth0'' net10_0 gw10_0 0 []"
  define poolB where "poolB = examplePool ''10.1.0.0/24'' ''eth1'' net10_1 gw10_1 1 []"
  define s1 where "s1 = emptySpace\<lparr> as_Pools := [(''10.0.0.0/24'', poolA)] \<rparr>"
  define s2 where "s2 = emptySpace\<lparr> as_Pools := [(''10.0.0.0/24'', snapshotPoolA)] \<rparr>"
  define s3 where "s3 = emptySpace\<lparr> as_Pools := [(''10.0.0.0/24'', snapshotPoolA), (''10.1.0.0/24'', poolB)] \<rparr>"
  define \<sigma>1 where "\<sigma>1 = storeOf
     [heldRecord ''c0'' (v4InV6Prefix @ [10, 0, 0, 4]) 0,
      freeRecord (v4InV6Prefix @ [10, 0, 0, 5]) 0,
      freeRecord (v4InV6Prefix @ [10, 0, 0, 5]) 0]"
  have p1: "newAddressPool emptySpace ''eth0'' '''' 0 net10_0 = (s1, ''10.0.0.0/24'', None)"
    by (simp add: newAddressPool_def IPNet_String_24 GenerateAddress_10_0 s1_def poolA_def examplePool_def emptySpace_def To4_examples Let_def)
  have b1: "built 2 heldStore s1" using built.new_pool [OF s0 p1] .
  have r1: "newAddressRecord heldStore poolA (v4InV6Prefix @ [10, 0, 0, 5]) = (\<sigma>1, snapshotPoolA, Inr 2)"
    by (simp add: newAddressRecord_def address_examples poolA_def snapshotPoolA_def examplePool_def heldStore_def
        storeOf_alloc \<sigma>1_def freeRecord_def)
  have b2: "built 2 \<sigma>1 s2"
    using built.new_record [OF b1 _ r1, of "''10.0.0.0/24''"] by (simp add: s1_def s2_def)
  have p2: "newAddressPool s2 ''eth1'' '''' 1 net10_1 = (s3, ''10.1.0.0/24'', None)"
    by (simp add: newAddressPool_def IPNet_String_24 GenerateAddress_10_1 s2_def s3_def poolB_def examplePool_def emptySpace_def To4_examples Let_def)
  have b3: "built 2 \<sigma>1 s3" using built.new_pool [OF b2 p2] .
  have r2: "newAddressRecord \<sigma>1 poolB (v4InV6Prefix @ [10, 1, 0, 4]) = (mergeStore, snapshotPoolB, Inr 3)"
    by (simp add: newAddressRecord_def address_examples poolB_def snapshotPoolB_def examplePool_def mergeStore_def
        storeOf_alloc \<sigma>1_def freeRecord_def)
  have "built 2 mergeStore (s3\<lparr> as_Pools := AList.update ''10.1.0.0/24'' snapshotPoolB (as_Pools s3) \<rparr>)"
    using built.new_record [OF b3 _ r2, of "''10.1.0.0/24''"] by (simp add: s3_def)
  then show ?thesis by (simp add: s3_def snapshot_def emptySpace_def)
qed

lemma liveSpace_live: "live 0 liveSpace"
proof -
  define poolA where "poolA = examplePool ''10.0.0.0/24'' ''eth0'' net10_0 gw10_0 0 []"
  define pool1 where "pool1 = examplePool ''10.0.0.0/24'' ''eth0'' net10_0 gw10_0 0 [(''10.0.0.4'', 0)]"
  define pool2 where "pool2 = examplePool ''10.0.0.0/24'' ''eth0'' net10_0 gw10_0 0
                                [(''10.0.0.4'', 0), (''10.0.0.5'', 1)]"
  define \<sigma>1 where "\<sigma>1 = storeOf [freeRecord (v4InV6Prefix @ [10, 0, 0, 4]) 0]"
  define \<sigma>2 where "\<sigma>2 = storeOf [freeRecord (v4InV6Prefix @ [10, 0, 0, 4]) 0,
                                 freeRecord (v4InV6Prefix @ [10, 0, 0, 5]) 0]"
  have "built (nextRef (storeOf [])) (storeOf []) emptySpace"
    by (rule built.new_space [of "''local''" LocalScope])
       (simp add: newAddressSpace_def LocalScope_def emptySpace_def)
  then have b0: "built 0 (storeOf []) emptySpace" by (simp add: storeOf_def)
  have p1: "newAddressPool emptySpace ''eth0'' '''' 0 net10_0
              = (emptySpace\<lparr> as_Pools := [(''10.0.0.0/24'', poolA)] \<rparr>, ''10.0.0.0/24'', None)"
    by (simp add: newAddressPool_def IPNet_String_24 GenerateAddress_10_0 poolA_def examplePool_def emptySpace_def To4_examples Let_def)
  note b1 = built.new_pool [OF b0 p1]
  have r1: "newAddressRecord (storeOf []) poolA (v4InV6Prefix @ [10, 0, 0, 4]) = (\<sigma>1, pool1, Inr 0)"
    by (simp add: newAddressRecord_def address_10_0_0_4 poolA_def pool1_def examplePool_def
        storeOf_alloc \<sigma>1_def freeRecord_def)
  have b2: "built 0 \<sigma>1 (emptySpace\<lparr> as_Pools := [(''10.0.0.0/24'', pool1)] \<rparr>)"
    using built.new_record [OF b1 _ r1, of "''10.0.0.0/24''"] by simp
  have r2: "newAddressRecord \<sigma>1 pool1 (v4InV6Prefix @ [10, 0, 0, 5]) = (\<sigma>2, pool2, Inr 1)"
    by (simp add: newAddressRecord_def address_examples pool1_def pool2_def examplePool_def
        storeOf_alloc \<sigma>1_def \<sigma>2_def freeRecord_def)
  have b3: "built 0 \<sigma>2 (emptySpace\<lparr> as_Pools := [(''10.0.0.0/24'', pool2)] \<rparr>)"
    using built.new_record [OF b2 _ r2, of "''10.0.0.0/24''"] by simp
  note l0 = live.first [OF b3]
  have rp: "requestPool \<sigma>2 (emptySpace\<lparr> as_Pools := [(''10.0.0.0/24'', pool2)] \<rparr>) ''10.0.0.0/24'' '''' None False
              = Some (\<sigma>2, emptySpace\<lparr> as_Pools := [(''10.0.0.0/24'', pool2\<lparr> ap_RefCount := 1 \<rparr>)] \<rparr>,
                      Inr ''10.0.0.0/24'')"
    by (simp add: requestPool_def getPool_def finishRequestPool_def pool2_def examplePool_def wrapInt_one)
  note l1 = live.pool_requested [OF l0 rp]
  obtain \<sigma>3 res where ra: "requestAddress \<sigma>2 (pool2\<lparr> ap_RefCount := 1 \<rparr>) ''10.0.0.4'' (idOptions ''c0'')
              = (\<sigma>3, heldPool, res)"
    by (simp add: requestAddress_def selectAddress_def optGet_idOptions pool2_def examplePool_def
        heldPool_def \<sigma>2_def storeOf_def freeRecord_def)
  have "live 0 (emptySpace\<lparr> as_Pools := [(''10.0.0.0/24'', heldPool)] \<rparr>)"
    using live.address_requested [OF l1 _ ra, of "''10.0.0.0/24''"] by simp
  then show ?thesis by (simp add: liveSpace_def emptySpace_def)
qed

text \<open>
  C10. Let the live space be one that fewer than \<^verbatim>\<open>2^63 - 1\<close> merges have led to, with
  distinct pool keys, no pool \<open>pk\<close> and records that were all allocated before the
  reference \<open>n\<close>; and let the snapshot be built by the constructors, from the
  reference \<open>n\<close> on, and hold the pool \<open>pv\<close> under \<open>pk\<close>. After the merge the live
  space holds \<open>pv\<close> under \<open>pk\<close> with the back pointer set and the new epoch of the
  space, which is the old one plus one. Every record of the pool was created with the
  epoch of the snapshot, the merge leaves that epoch, and it is below the new epoch of
  the live space. So for every address of the pool a request followed by a release
  succeeds and leaves the address out of the pool: requested and released by the
  address alone; and, requested under an id, released by the id alone or by the
  address and the id.
\<close>

theorem merge_adopted_pool_records:
  assumes lv: "live m as" and few: "int m < maxInt"
    and keys: "distinct (map fst (as_Pools as))"
    and absent: "map_of (as_Pools as) pk = None"
    and older: "\<forall>k a r. lookupAddr as k a = Some r \<longrightarrow> r < n"
    and snap: "built n \<sigma> newas"
    and mem: "map_of (as_Pools newas) pk = Some pv"
  shows "\<exists>\<sigma>1 as1 newas1 ap1.
      merge \<sigma> as newas = (\<sigma>1, as1, newas1) \<and>
      as_epoch as1 = as_epoch as + 1 \<and>
      map_of (as_Pools as1) pk = Some ap1 \<and>
      ap1 = pv\<lparr> ap_as := ownerSpace, ap_epoch := as_epoch as1 \<rparr> \<and>
      (\<forall>(a, r) \<in> set (ap_Addresses pv).
          ar_epoch (recs \<sigma> r) = as_epoch newas \<and>
          ar_epoch (recs \<sigma>1 r) = ar_epoch (recs \<sigma> r) \<and>
          ar_epoch (recs \<sigma>1 r) < as_epoch as1 \<and>
          (\<exists>\<sigma>2 ap2 cidr \<sigma>3 ap3.
              requestAddress \<sigma>1 ap1 a None = (\<sigma>2, ap2, Inr cidr) \<and>
              releaseAddress \<sigma>2 as1 ap2 a None = (\<sigma>3, ap3, None) \<and>
              map_of (ap_Addresses ap3) a = None) \<and>
          (\<forall>x. x \<noteq> '''' \<longrightarrow>
             (\<exists>\<sigma>2 ap2 cidr.
                requestAddress \<sigma>1 ap1 a (idOptions x) = (\<sigma>2, ap2, Inr cidr) \<and>
                (\<exists>\<sigma>3 ap3. releaseAddress \<sigma>2 as1 ap2 '''' (idOptions x) = (\<sigma>3, ap3, None) \<and>
                           map_of (ap_Addresses ap3) a = None) \<and>
                (\<exists>\<sigma>3 ap3. releaseAddress \<sigma>2 as1 ap2 a (idOptions x) = (\<sigma>3, ap3, None) \<and>
                           map_of (ap_Addresses ap3) a = None))))"
proof -
  note ep = live_epoch [OF lv few]
  have lo: "minInt \<le> as_epoch as" using ep by (simp add: minInt_def)
  have hi: "as_epoch as < maxInt" using ep few by simp
  note inv = built_inv [OF snap]
  have e0: "as_epoch newas = 0" and nkeys: "distinct (map fst (as_Pools newas))"
    using inv by simp_all
  have pvd: "distinct (map fst (ap_Addresses pv))"
    using inv mem by blast
  have look: "lookupAddr newas pk a = Some r" if "(a, r) \<in> set (ap_Addresses pv)" for a r
    using that pvd mem by (simp add: lookupAddr_def)
  have rec: "n \<le> r \<and> ar_epoch (recs \<sigma> r) = 0 \<and> \<not> ar_InUse (recs \<sigma> r) \<and>
             a = IP_String (ar_Addr (recs \<sigma> r))"
    if "(a, r) \<in> set (ap_Addresses pv)" for a r
    using inv look [OF that] by blast
  have inj: "k = pk" if "lookupAddr newas k a = Some r" "(a', r) \<in> set (ap_Addresses pv)" for k a a' r
    using inv that(1) look [OF that(2)] by blast
  from merge_adopts_pool [OF keys absent nkeys mem lo hi, of \<sigma>]
  obtain \<sigma>1 as1 newas1 where
    m: "merge \<sigma> as newas = (\<sigma>1, as1, newas1)"
    and e: "as_epoch as1 = as_epoch as + 1"
    and p: "map_of (as_Pools as1) pk = Some (pv\<lparr> ap_as := ownerSpace, ap_epoch := as_epoch as + 1 \<rparr>)"
    and fr: "\<forall>r. (\<forall>k a'. lookupAddr as k a' \<noteq> Some r) \<longrightarrow>
           (\<forall>(k, pv') \<in> set (as_Pools newas). k \<noteq> pk \<longrightarrow> r \<notin> set (poolRefs pv')) \<longrightarrow>
           ar_epoch (recs \<sigma>1 r) = ar_epoch (recs \<sigma> r)"
    by blast
  define ap1 where "ap1 = pv\<lparr> ap_as := ownerSpace, ap_epoch := as_epoch as1 \<rparr>"
  have p': "map_of (as_Pools as1) pk = Some ap1" using p e by (simp add: ap1_def)
  have each: "ar_epoch (recs \<sigma> r) = as_epoch newas \<and>
          ar_epoch (recs \<sigma>1 r) = ar_epoch (recs \<sigma> r) \<and>
          ar_epoch (recs \<sigma>1 r) < as_epoch as1 \<and>
          (\<exists>\<sigma>2 ap2 cidr \<sigma>3 ap3.
              requestAddress \<sigma>1 ap1 a None = (\<sigma>2, ap2, Inr cidr) \<and>
              releaseAddress \<sigma>2 as1 ap2 a None = (\<sigma>3, ap3, None) \<and>
              map_of (ap_Addresses ap3) a = None) \<and>
          (\<forall>x. x \<noteq> '''' \<longrightarrow>
             (\<exists>\<sigma>2 ap2 cidr.
                requestAddress \<sigma>1 ap1 a (idOptions x) = (\<sigma>2, ap2, Inr cidr) \<and>
                (\<exists>\<sigma>3 ap3. releaseAddress \<sigma>2 as1 ap2 '''' (idOptions x) = (\<sigma>3, ap3, None) \<and>
                           map_of (ap_Addresses ap3) a = None) \<and>
                (\<exists>\<sigma>3 ap3. releaseAddress \<sigma>2 as1 ap2 a (idOptions x) = (\<sigma>3, ap3, None) \<and>
                           map_of (ap_Addresses ap3) a = None)))"
    if ar: "(a, r) \<in> set (ap_Addresses pv)" for a r
  proof -
    note f = rec [OF ar]
    have u1: "\<forall>k a'. lookupAddr as k a' \<noteq> Some r"
    proof (intro allI notI)
      fix k a' assume "lookupAddr as k a' = Some r"
      then have "r < n" using older by blast
      with f show False by simp
    qed
    have u2: "\<forall>(k, pv') \<in> set (as_Pools newas). k \<noteq> pk \<longrightarrow> r \<notin> set (poolRefs pv')"
    proof (clarify)
      fix k pv' assume i: "(k, pv') \<in> set (as_Pools newas)" and k: "k \<noteq> pk"
        and j: "r \<in> set (poolRefs pv')"
      have mk: "map_of (as_Pools newas) k = Some pv'" using i nkeys by simp
      then have d: "distinct (map fst (ap_Addresses pv'))" using inv by blast
      from j obtain a' where "(a', r) \<in> set (ap_Addresses pv')" by (auto simp: poolRefs_def)
      then have "lookupAddr newas k a' = Some r" using d mk by (simp add: lookupAddr_def)
      from inj [OF this ar] k show False by simp
    qed
    have keep: "ar_epoch (recs \<sigma>1 r) = ar_epoch (recs \<sigma> r)" using fr u1 u2 by blast
    note g = merge_ids [OF m, of r]
    have slot: "map_of (ap_Addresses ap1) a = Some r" using ar pvd by (simp add: ap1_def)
    have free: "\<not> ar_InUse (recs \<sigma>1 r)" using g f by simp
    have owner: "ap_as ap1 = ownerSpace" by (simp add: ap1_def)
    have old: "ar_epoch (recs \<sigma>1 r) < as_epoch as1" using keep f e ep by simp
    have key: "a = IP_String (ar_Addr (recs \<sigma>1 r))" using g f by simp
    have ne: "a \<noteq> ''''" using key IP_String_nonempty by simp
    note A = request_then_release_deletes [OF ne slot free owner old]
    have B: "\<forall>x. x \<noteq> '''' \<longrightarrow>
             (\<exists>\<sigma>2 ap2 cidr.
                requestAddress \<sigma>1 ap1 a (idOptions x) = (\<sigma>2, ap2, Inr cidr) \<and>
                (\<exists>\<sigma>3 ap3. releaseAddress \<sigma>2 as1 ap2 '''' (idOptions x) = (\<sigma>3, ap3, None) \<and>
                           map_of (ap_Addresses ap3) a = None) \<and>
                (\<exists>\<sigma>3 ap3. releaseAddress \<sigma>2 as1 ap2 a (idOptions x) = (\<sigma>3, ap3, None) \<and>
                           map_of (ap_Addresses ap3) a = None))"
      using request_then_release_by_id [OF slot free owner old key] by blast
    show ?thesis using f e0 keep old A B by simp
  qed
  have all: "\<forall>(a, r) \<in> set (ap_Addresses pv).
          ar_epoch (recs \<sigma> r) = as_epoch newas \<and>
          ar_epoch (recs \<sigma>1 r) = ar_epoch (recs \<sigma> r) \<and>
          ar_epoch (recs \<sigma>1 r) < as_epoch as1 \<and>
          (\<exists>\<sigma>2 ap2 cidr \<sigma>3 ap3.
              requestAddress \<sigma>1 ap1 a None = (\<sigma>2, ap2, Inr cidr) \<and>
              releaseAddress \<sigma>2 as1 ap2 a None = (\<sigma>3, ap3, None) \<and>
              map_of (ap_Addresses ap3) a = None) \<and>
          (\<forall>x. x \<noteq> '''' \<longrightarrow>
             (\<exists>\<sigma>2 ap2 cidr.
                requestAddress \<sigma>1 ap1 a (idOptions x) = (\<sigma>2, ap2, Inr cidr) \<and>
                (\<exists>\<sigma>3 ap3. releaseAddress \<sigma>2 as1 ap2 '''' (idOptions x) = (\<sigma>3, ap3, None) \<and>
                           map_of (ap_Addresses ap3) a = None) \<and>
                (\<exists>\<sigma>3 ap3. releaseAddress \<sigma>2 as1 ap2 a (idOptions x) = (\<sigma>3, ap3, None) \<and>
                           map_of (ap_Addresses ap3) a = None)))"
    using each by blast
  show ?thesis
    apply (rule exI [of _ \<sigma>1], rule exI [of _ as1], rule exI [of _ newas1], rule exI [of _ ap1])
    apply (intro conjI)
        apply (rule m)
       apply (rule e)
      apply (rule p')
     apply (rule ap1_def)
    apply (rule all)
    done
qed

theorem merge_adopted_pool_records_witness:
  "\<exists>\<sigma>1 as1 newas1 ap1.
      merge mergeStore liveSpace snapshot = (\<sigma>1, as1, newas1) \<and>
      as_epoch as1 = 1 \<and>
      map_of (as_Pools as1) ''10.1.0.0/24'' = Some ap1 \<and>
      ap_epoch ap1 = 1 \<and>
      ar_epoch (recs \<sigma>1 3) = 0 \<and>
      (\<exists>\<sigma>2 ap2 cidr \<sigma>3 ap3.
          requestAddress \<sigma>1 ap1 ''10.1.0.4'' (idOptions ''c1'') = (\<sigma>2, ap2, Inr cidr) \<and>
          releaseAddress \<sigma>2 as1 ap2 '''' (idOptions ''c1'') = (\<sigma>3, ap3, None) \<and>
          map_of (ap_Addresses ap3) ''10.1.0.4'' = None)"
proof -
  have few: "int 0 < maxInt" by (simp add: maxInt_def)
  have keys: "distinct (map fst (as_Pools liveSpace))"
    and absent: "map_of (as_Pools liveSpace) ''10.1.0.0/24'' = None"
    and mem: "map_of (as_Pools snapshot) ''10.1.0.0/24'' = Some snapshotPoolB"
    by (simp_all add: merge_example_defs example_defs)
  have older: "\<forall>k a r. lookupAddr liveSpace k a = Some r \<longrightarrow> r < 2"
    by (auto simp: lookupAddr_def merge_example_defs example_defs split: if_splits)
  from merge_adopted_pool_records [OF liveSpace_live few keys absent older snapshot_built mem]
  obtain \<sigma>1 as1 newas1 ap1 where
    m: "merge mergeStore liveSpace snapshot = (\<sigma>1, as1, newas1)"
    and e: "as_epoch as1 = as_epoch liveSpace + 1"
    and p: "map_of (as_Pools as1) ''10.1.0.0/24'' = Some ap1"
    and s: "ap1 = snapshotPoolB\<lparr> ap_as := ownerSpace, ap_epoch := as_epoch as1 \<rparr>"
    and r: "\<forall>(a, r) \<in> set (ap_Addresses snapshotPoolB).
          ar_epoch (recs mergeStore r) = as_epoch snapshot \<and>
          ar_epoch (recs \<sigma>1 r) = ar_epoch (recs mergeStore r) \<and>
          ar_epoch (recs \<sigma>1 r) < as_epoch as1 \<and>
          (\<exists>\<sigma>2 ap2 cidr \<sigma>3 ap3.
              requestAddress \<sigma>1 ap1 a None = (\<sigma>2, ap2, Inr cidr) \<and>
              releaseAddress \<sigma>2 as1 ap2 a None = (\<sigma>3, ap3, None) \<and>
              map_of (ap_Addresses ap3) a = None) \<and>
          (\<forall>x. x \<noteq> '''' \<longrightarrow>
             (\<exists>\<sigma>2 ap2 cidr.
                requestAddress \<sigma>1 ap1 a (idOptions x) = (\<sigma>2, ap2, Inr cidr) \<and>
                (\<exists>\<sigma>3 ap3. releaseAddress \<sigma>2 as1 ap2 '''' (idOptions x) = (\<sigma>3, ap3, None) \<and>
                           map_of (ap_Addresses ap3) a = None) \<and>
                (\<exists>\<sigma>3 ap3. releaseAddress \<sigma>2 as1 ap2 a (idOptions x) = (\<sigma>3, ap3, None) \<and>
                           map_of (ap_Addresses ap3) a = None)))"
    by blast
  have e1: "as_epoch as1 = 1" using e by (simp add: liveSpace_def)
  have pe: "ap_epoch ap1 = 1" using s e1 by simp
  have addrs: "ap_Addresses snapshotPoolB = [(''10.1.0.4'', 3)]"
    by (simp add: snapshotPoolB_def examplePool_def)
  have r3: "ar_epoch (recs \<sigma>1 3) = 0"
    using r by (simp add: addrs snapshot_def)
  have "\<exists>\<sigma>2 ap2 cidr.
          requestAddress \<sigma>1 ap1 ''10.1.0.4'' (idOptions ''c1'') = (\<sigma>2, ap2, Inr cidr) \<and>
          (\<exists>\<sigma>3 ap3. releaseAddress \<sigma>2 as1 ap2 '''' (idOptions ''c1'') = (\<sigma>3, ap3, None) \<and>
                     map_of (ap_Addresses ap3) ''10.1.0.4'' = None) \<and>
          (\<exists>\<sigma>3 ap3. releaseAddress \<sigma>2 as1 ap2 ''10.1.0.4'' (idOptions ''c1'') = (\<sigma>3, ap3, None) \<and>
                     map_of (ap_Addresses ap3) ''10.1.0.4'' = None)"
    using r by (simp add: addrs)
  then have "\<exists>\<sigma>2 ap2 cidr \<sigma>3 ap3.
          requestAddress \<sigma>1 ap1 ''10.1.0.4'' (idOptions ''c1'') = (\<sigma>2, ap2, Inr cidr) \<and>
          releaseAddress \<sigma>2 as1 ap2 '''' (idOptions ''c1'') = (\<sigma>3, ap3, None) \<and>
          map_of (ap_Addresses ap3) ''10.1.0.4'' = None"
    by blast
  with m e1 p pe r3 show ?thesis by blast
qed


subsection \<open>Merge: what advances the epoch\<close>

text \<open>The first loop, seen from a record that it stamps.\<close>

lemma mergeAddress_stamp:
  assumes "mergeAddress e ak av (\<sigma>, p) = (\<sigma>1, p1)"
  shows "map_of (ap_Addresses p1) ak
           = Some (case map_of (ap_Addresses p) ak of None \<Rightarrow> av | Some r0 \<Rightarrow> r0)"
    and "ar_epoch (recs \<sigma>1 (case map_of (ap_Addresses p) ak of None \<Rightarrow> av | Some r0 \<Rightarrow> r0)) = e"
    and "map_of (ap_Addresses p) ak = Some r0 \<Longrightarrow> \<not> ar_unhealthy (recs \<sigma>1 r0)"
  using assms
  by (auto simp: mergeAddress_def updRec_def update_conv' split: option.splits)

lemma mergeAddress_keeps:
  assumes "mergeAddress e ak av (\<sigma>, p) = (\<sigma>1, p1)"
  shows "map_of (ap_Addresses p) k = Some r \<Longrightarrow> map_of (ap_Addresses p1) k = Some r"
    and "k \<noteq> ak \<Longrightarrow> map_of (ap_Addresses p1) k = map_of (ap_Addresses p) k"
    and "ar_epoch (recs \<sigma> x) = e \<Longrightarrow> ar_epoch (recs \<sigma>1 x) = e"
    and "\<not> ar_unhealthy (recs \<sigma> x) \<Longrightarrow> \<not> ar_unhealthy (recs \<sigma>1 x)"
  using assms
  by (auto simp: mergeAddress_def updRec_def update_conv' split: option.splits if_splits)

lemma mergeAddresses_keeps:
  assumes "mergeAddresses e avs (\<sigma>, p) = (\<sigma>1, p1)"
  shows "(map_of (ap_Addresses p) k = Some r \<longrightarrow> map_of (ap_Addresses p1) k = Some r) \<and>
         (k \<notin> fst ` set avs \<longrightarrow> map_of (ap_Addresses p1) k = map_of (ap_Addresses p) k) \<and>
         (ar_epoch (recs \<sigma> x) = e \<longrightarrow> ar_epoch (recs \<sigma>1 x) = e) \<and>
         (\<not> ar_unhealthy (recs \<sigma> x) \<longrightarrow> \<not> ar_unhealthy (recs \<sigma>1 x))"
  using assms
proof (induction avs arbitrary: \<sigma> p)
  case Nil
  then show ?case by simp
next
  case (Cons y avs)
  obtain ak av where y: "y = (ak, av)" by (cases y)
  obtain \<sigma>' p' where st: "mergeAddress e ak av (\<sigma>, p) = (\<sigma>', p')"
    by (cases "mergeAddress e ak av (\<sigma>, p)")
  have rest: "mergeAddresses e avs (\<sigma>', p') = (\<sigma>1, p1)"
    using Cons.prems y st by simp
  note ih = Cons.IH [OF rest]
  note k1 = mergeAddress_keeps(1) [OF st, of k r]
  note k2 = mergeAddress_keeps(2) [OF st, of k]
  note k3 = mergeAddress_keeps(3) [OF st, of x]
  note k4 = mergeAddress_keeps(4) [OF st, of x]
  show ?case using ih k1 k2 k3 k4 y by auto
qed

lemma mergeAddresses_stamp:
  assumes "mergeAddresses e avs (\<sigma>, p) = (\<sigma>1, p1)"
    and "distinct (map fst avs)" and "(ak, av) \<in> set avs"
  shows "map_of (ap_Addresses p1) ak
           = Some (case map_of (ap_Addresses p) ak of None \<Rightarrow> av | Some r0 \<Rightarrow> r0) \<and>
         ar_epoch (recs \<sigma>1 (case map_of (ap_Addresses p) ak of None \<Rightarrow> av | Some r0 \<Rightarrow> r0)) = e \<and>
         (\<forall>r0. map_of (ap_Addresses p) ak = Some r0 \<longrightarrow> \<not> ar_unhealthy (recs \<sigma>1 r0))"
  using assms
proof (induction avs arbitrary: \<sigma> p)
  case Nil
  then show ?case by simp
next
  case (Cons y avs)
  obtain ak' av' where y: "y = (ak', av')" by (cases y)
  obtain \<sigma>' p' where st: "mergeAddress e ak' av' (\<sigma>, p) = (\<sigma>', p')"
    by (cases "mergeAddress e ak' av' (\<sigma>, p)")
  have rest: "mergeAddresses e avs (\<sigma>', p') = (\<sigma>1, p1)"
    using Cons.prems(1) y st by simp
  define t where "t = (case map_of (ap_Addresses p) ak of None \<Rightarrow> av | Some r0 \<Rightarrow> r0)"
  show ?case
  proof (cases "(ak, av) = (ak', av')")
    case True
    then have eq: "ak' = ak" "av' = av" by simp_all
    note s = mergeAddress_stamp [OF st [unfolded eq]]
    note k = mergeAddresses_keeps [OF rest]
    have a: "map_of (ap_Addresses p1) ak = Some t"
      using s(1) k [of ak t] by (simp add: t_def)
    have b: "ar_epoch (recs \<sigma>1 t) = e"
      using s(2) k [of ak t t] by (simp add: t_def)
    have c: "\<forall>r0. map_of (ap_Addresses p) ak = Some r0 \<longrightarrow> \<not> ar_unhealthy (recs \<sigma>1 r0)"
    proof (intro allI impI)
      fix r0 assume h: "map_of (ap_Addresses p) ak = Some r0"
      from s(3) [OF h] k [of ak r0 r0] show "\<not> ar_unhealthy (recs \<sigma>1 r0)" by simp
    qed
    from a b c show ?thesis by (simp add: t_def)
  next
    case False
    then have mem: "(ak, av) \<in> set avs" using Cons.prems(3) y by auto
    have d: "distinct (map fst avs)" using Cons.prems(2) by simp
    have "ak \<noteq> ak'"
      using Cons.prems(2) mem y by force
    then have same: "map_of (ap_Addresses p') ak = map_of (ap_Addresses p) ak"
      using mergeAddress_keeps(2) [OF st, of ak] by simp
    from Cons.IH [OF rest d mem] same show ?thesis by simp
  qed
qed

lemma mergePool_keeps:
  assumes st: "mergePool e pk' pv (\<sigma>, as, newas, u) = (\<sigma>1, as1, newas1, u1)"
  shows "lookupAddr as k a = Some r \<Longrightarrow> lookupAddr as1 k a = Some r"
    and "ar_epoch (recs \<sigma> x) = e \<Longrightarrow> ar_epoch (recs \<sigma>1 x) = e"
    and "\<not> ar_unhealthy (recs \<sigma> x) \<Longrightarrow> \<not> ar_unhealthy (recs \<sigma>1 x)"
proof -
  show "lookupAddr as k a = Some r \<Longrightarrow> lookupAddr as1 k a = Some r"
  proof (cases "map_of (as_Pools as) pk'")
    case None
    assume "lookupAddr as k a = Some r"
    with st None show ?thesis
      by (auto simp: mergePool_def lookupAddr_def update_conv' split: option.splits if_splits)
  next
    case (Some p)
    assume h: "lookupAddr as k a = Some r"
    obtain \<sigma>' p' where ma: "mergeAddresses e (ap_Addresses pv) (\<sigma>, p) = (\<sigma>', p')"
      by (cases "mergeAddresses e (ap_Addresses pv) (\<sigma>, p)")
    have as1: "as_Pools as1 = AList.update pk' p' (as_Pools as)"
      using st Some ma by (auto simp: mergePool_def)
    show ?thesis
    proof (cases "k = pk'")
      case True
      then have "map_of (ap_Addresses p) a = Some r" using h Some by (simp add: lookupAddr_def)
      then have "map_of (ap_Addresses p') a = Some r" using mergeAddresses_keeps [OF ma, of a r] by simp
      then show ?thesis using True as1 by (simp add: lookupAddr_def update_conv')
    next
      case False
      then show ?thesis using h as1 by (simp add: lookupAddr_def update_conv')
    qed
  qed
  show "ar_epoch (recs \<sigma> x) = e \<Longrightarrow> ar_epoch (recs \<sigma>1 x) = e"
  proof (cases "map_of (as_Pools as) pk'")
    case None
    assume "ar_epoch (recs \<sigma> x) = e"
    with st None show ?thesis by (simp add: mergePool_def)
  next
    case (Some p)
    assume h: "ar_epoch (recs \<sigma> x) = e"
    obtain \<sigma>' p' where ma: "mergeAddresses e (ap_Addresses pv) (\<sigma>, p) = (\<sigma>', p')"
      by (cases "mergeAddresses e (ap_Addresses pv) (\<sigma>, p)")
    have "\<sigma>1 = \<sigma>'" using st Some ma by (auto simp: mergePool_def)
    with mergeAddresses_keeps [OF ma, of _ _ x] h show ?thesis by simp
  qed
  show "\<not> ar_unhealthy (recs \<sigma> x) \<Longrightarrow> \<not> ar_unhealthy (recs \<sigma>1 x)"
  proof (cases "map_of (as_Pools as) pk'")
    case None
    assume "\<not> ar_unhealthy (recs \<sigma> x)"
    with st None show ?thesis by (simp add: mergePool_def)
  next
    case (Some p)
    assume h: "\<not> ar_unhealthy (recs \<sigma> x)"
    obtain \<sigma>' p' where ma: "mergeAddresses e (ap_Addresses pv) (\<sigma>, p) = (\<sigma>', p')"
      by (cases "mergeAddresses e (ap_Addresses pv) (\<sigma>, p)")
    have "\<sigma>1 = \<sigma>'" using st Some ma by (auto simp: mergePool_def)
    with mergeAddresses_keeps [OF ma, of _ _ x] h show ?thesis by simp
  qed
qed

lemma mergePools_keeps:
  assumes "mergePools e ps (\<sigma>, as, newas, u) = (\<sigma>1, as1, newas1, u1)"
  shows "(lookupAddr as k a = Some r \<longrightarrow> lookupAddr as1 k a = Some r) \<and>
         (ar_epoch (recs \<sigma> x) = e \<longrightarrow> ar_epoch (recs \<sigma>1 x) = e) \<and>
         (\<not> ar_unhealthy (recs \<sigma> x) \<longrightarrow> \<not> ar_unhealthy (recs \<sigma>1 x))"
  using assms
proof (induction ps arbitrary: \<sigma> as newas u)
  case Nil
  then show ?case by simp
next
  case (Cons y ps)
  obtain pk' pv where y: "y = (pk', pv)" by (cases y)
  obtain \<sigma>' as' newas' u' where st: "mergePool e pk' pv (\<sigma>, as, newas, u) = (\<sigma>', as', newas', u')"
    by (cases "mergePool e pk' pv (\<sigma>, as, newas, u)")
  have rest: "mergePools e ps (\<sigma>', as', newas', u') = (\<sigma>1, as1, newas1, u1)"
    using Cons.prems y st by simp
  note ih = Cons.IH [OF rest]
  note k1 = mergePool_keeps(1) [OF st, of k a r]
  note k2 = mergePool_keeps(2) [OF st, of x]
  note k3 = mergePool_keeps(3) [OF st, of x]
  show ?case using ih k1 k2 k3 by auto
qed

lemma mergePool_stamp:
  assumes st: "mergePool e pk pv (\<sigma>, as, newas, u) = (\<sigma>1, as1, newas1, u1)"
    and live: "map_of (as_Pools as) pk = Some ap"
    and vdist: "distinct (map fst (ap_Addresses pv))"
    and mem: "(ak, av) \<in> set (ap_Addresses pv)"
  shows "lookupAddr as1 pk ak = Some (case lookupAddr as pk ak of None \<Rightarrow> av | Some r0 \<Rightarrow> r0)"
    and "ar_epoch (recs \<sigma>1 (case lookupAddr as pk ak of None \<Rightarrow> av | Some r0 \<Rightarrow> r0)) = e"
    and "lookupAddr as pk ak = Some r0 \<Longrightarrow> \<not> ar_unhealthy (recs \<sigma>1 r0)"
proof -
  obtain \<sigma>' p' where ma: "mergeAddresses e (ap_Addresses pv) (\<sigma>, ap) = (\<sigma>', p')"
    by (cases "mergeAddresses e (ap_Addresses pv) (\<sigma>, ap)")
  have as1: "as_Pools as1 = AList.update pk p' (as_Pools as)" and s1: "\<sigma>1 = \<sigma>'"
    using st live ma by (auto simp: mergePool_def)
  have l: "lookupAddr as pk ak = map_of (ap_Addresses ap) ak"
    using live by (simp add: lookupAddr_def)
  have l1: "lookupAddr as1 pk ak = map_of (ap_Addresses p') ak"
    using as1 by (simp add: lookupAddr_def update_conv')
  note s = mergeAddresses_stamp [OF ma vdist mem]
  show "lookupAddr as1 pk ak = Some (case lookupAddr as pk ak of None \<Rightarrow> av | Some r0 \<Rightarrow> r0)"
    using s l l1 by simp
  show "ar_epoch (recs \<sigma>1 (case lookupAddr as pk ak of None \<Rightarrow> av | Some r0 \<Rightarrow> r0)) = e"
    using s l s1 by simp
  show "lookupAddr as pk ak = Some r0 \<Longrightarrow> \<not> ar_unhealthy (recs \<sigma>1 r0)"
    using s l s1 by simp
qed

lemma mergePools_stamp:
  assumes run: "mergePools e ps (\<sigma>, as, newas, u) = (\<sigma>1, as1, newas1, u1)"
    and keys: "distinct (map fst ps)" and pmem: "(pk, pv) \<in> set ps"
    and live: "map_of (as_Pools as) pk = Some ap"
    and vdist: "distinct (map fst (ap_Addresses pv))"
    and mem: "(ak, av) \<in> set (ap_Addresses pv)"
  shows "lookupAddr as1 pk ak = Some (case lookupAddr as pk ak of None \<Rightarrow> av | Some r0 \<Rightarrow> r0)"
    and "ar_epoch (recs \<sigma>1 (case lookupAddr as pk ak of None \<Rightarrow> av | Some r0 \<Rightarrow> r0)) = e"
    and "lookupAddr as pk ak = Some r0 \<Longrightarrow> \<not> ar_unhealthy (recs \<sigma>1 r0)"
proof -
  define t where "t = (case lookupAddr as pk ak of None \<Rightarrow> av | Some r0 \<Rightarrow> r0)"
  from pmem obtain xs ys where ps: "ps = xs @ (pk, pv) # ys"
    by (auto simp: in_set_conv_decomp)
  have kx: "pk \<notin> fst ` set xs" using keys ps by auto
  obtain \<sigma>a asa na ua where a: "mergePools e xs (\<sigma>, as, newas, u) = (\<sigma>a, asa, na, ua)"
    by (cases "mergePools e xs (\<sigma>, as, newas, u)")
  obtain \<sigma>b asb nb ub where b: "mergePool e pk pv (\<sigma>a, asa, na, ua) = (\<sigma>b, asb, nb, ub)"
    by (cases "mergePool e pk pv (\<sigma>a, asa, na, ua)")
  have c: "mergePools e ys (\<sigma>b, asb, nb, ub) = (\<sigma>1, as1, newas1, u1)"
    using run a b by (simp add: ps mergePools_append)
  have pa: "map_of (as_Pools asa) pk = Some ap"
    using mergePools_other [OF a, of pk] kx live by simp
  have la: "lookupAddr asa pk ak = lookupAddr as pk ak"
    using pa live by (simp add: lookupAddr_def)
  note s = mergePool_stamp [OF b pa vdist mem]
  have s1: "lookupAddr asb pk ak = Some t" using s(1) la by (simp add: t_def)
  have s2: "ar_epoch (recs \<sigma>b t) = e" using s(2) la by (simp add: t_def)
  note k = mergePools_keeps [OF c]
  show "lookupAddr as1 pk ak = Some (case lookupAddr as pk ak of None \<Rightarrow> av | Some r0 \<Rightarrow> r0)"
    using s1 k [of pk ak t] by (simp add: t_def)
  show "ar_epoch (recs \<sigma>1 (case lookupAddr as pk ak of None \<Rightarrow> av | Some r0 \<Rightarrow> r0)) = e"
    using s2 k [of pk ak t t] by (simp add: t_def)
  show "lookupAddr as pk ak = Some r0 \<Longrightarrow> \<not> ar_unhealthy (recs \<sigma>1 r0)"
  proof -
    assume h: "lookupAddr as pk ak = Some r0"
    then have "lookupAddr asa pk ak = Some r0" using la by simp
    from s(3) [OF this] k [of pk ak r0 r0] show ?thesis by simp
  qed
qed

text \<open>The sweep, seen from a record that carries the epoch of the space.\<close>

lemma sweepAddress_confirmed:
  "sweepAddress E ak av (\<sigma>, pv) = (\<sigma>1, pv1) \<Longrightarrow> ar_epoch (recs \<sigma> x) = E \<Longrightarrow> recs \<sigma>1 x = recs \<sigma> x"
  by (auto simp: sweepAddress_def updRec_def split: if_splits)

lemma sweepAddresses_confirmed:
  "sweepAddresses E avs (\<sigma>, pv) = (\<sigma>1, pv1) \<Longrightarrow> ar_epoch (recs \<sigma> x) = E \<Longrightarrow> recs \<sigma>1 x = recs \<sigma> x"
proof (induction avs arbitrary: \<sigma> pv)
  case Nil
  then show ?case by simp
next
  case (Cons y avs)
  obtain ak av where y: "y = (ak, av)" by (cases y)
  obtain \<sigma>' pv' where st: "sweepAddress E ak av (\<sigma>, pv) = (\<sigma>', pv')"
    by (cases "sweepAddress E ak av (\<sigma>, pv)")
  have rest: "sweepAddresses E avs (\<sigma>', pv') = (\<sigma>1, pv1)"
    using Cons.prems(1) y st by simp
  have same: "recs \<sigma>' x = recs \<sigma> x" using sweepAddress_confirmed [OF st Cons.prems(2)] .
  then have "ar_epoch (recs \<sigma>' x) = E" using Cons.prems(2) by simp
  from Cons.IH [OF rest this] same show ?case by simp
qed

lemma sweepAddresses_alive:
  assumes "sweepAddresses E avs (\<sigma>, pv) = (\<sigma>1, pv1)"
    and "(a, r) \<in> set avs" and "ar_epoch (recs \<sigma> r) = E"
  shows "ap_epoch pv1 = E"
  using assms
proof (induction avs arbitrary: \<sigma> pv)
  case Nil
  then show ?case by simp
next
  case (Cons y avs)
  obtain ak av where y: "y = (ak, av)" by (cases y)
  obtain \<sigma>' pv' where st: "sweepAddress E ak av (\<sigma>, pv) = (\<sigma>', pv')"
    by (cases "sweepAddress E ak av (\<sigma>, pv)")
  have rest: "sweepAddresses E avs (\<sigma>', pv') = (\<sigma>1, pv1)"
    using Cons.prems(1) y st by simp
  show ?case
  proof (cases "(a, r) = (ak, av)")
    case True
    then have "ar_epoch (recs \<sigma> av) = E" using Cons.prems(3) by simp
    then have "ap_epoch pv' = E" using sweepAddress_pool(5) [OF st] by simp
    with sweepAddresses_records [OF rest] show ?thesis by simp
  next
    case False
    then have mem: "(a, r) \<in> set avs" using Cons.prems(2) y by auto
    have "ar_epoch (recs \<sigma>' r) = E"
      using sweepAddress_records(2) [OF st, of r] Cons.prems(3) by simp
    from Cons.IH [OF rest mem this] show ?thesis .
  qed
qed

lemma sweepPool_confirmed:
  assumes "sweepPool k pv (\<sigma>, as) = (\<sigma>1, as1)" and "ar_epoch (recs \<sigma> x) = as_epoch as"
  shows "recs \<sigma>1 x = recs \<sigma> x"
proof -
  obtain \<sigma>' pv' where sa: "sweepAddresses (as_epoch as) (ap_Addresses pv) (\<sigma>, pv) = (\<sigma>', pv')"
    by (cases "sweepAddresses (as_epoch as) (ap_Addresses pv) (\<sigma>, pv)")
  have "\<sigma>1 = \<sigma> \<or> \<sigma>1 = \<sigma>'"
    using assms(1) sa by (auto simp: sweepPool_def split: if_splits)
  with sweepAddresses_confirmed [OF sa assms(2)] show ?thesis by auto
qed

lemma sweepPool_current:
  assumes st: "sweepPool k pv (\<sigma>, as) = (\<sigma>1, as1)"
    and held: "map_of (as_Pools as) k = Some pv"
    and dist: "distinct (map fst (ap_Addresses pv))"
    and slot: "map_of (ap_Addresses pv) a = Some r"
    and cur: "ar_epoch (recs \<sigma> r) = as_epoch as"
  shows "lookupAddr as1 k a = Some r"
proof (cases "ap_epoch pv < as_epoch as")
  case False
  then have "as1 = as" using st by (simp add: sweepPool_def)
  then show ?thesis using held slot by (simp add: lookupAddr_def)
next
  case True
  obtain \<sigma>' pv' where sa: "sweepAddresses (as_epoch as) (ap_Addresses pv) (\<sigma>, pv) = (\<sigma>', pv')"
    by (cases "sweepAddresses (as_epoch as) (ap_Addresses pv) (\<sigma>, pv)")
  have mem: "(a, r) \<in> set (ap_Addresses pv)" using slot by (rule map_of_SomeD)
  have uniq: "\<forall>(ak, av) \<in> set (ap_Addresses pv). ak = a \<longrightarrow> av = r"
    using eq_key_imp_eq_value [OF dist _ mem] by auto
  have c: "\<forall>(ak, av) \<in> set (ap_Addresses pv). ak = a \<longrightarrow>
             ar_epoch (recs \<sigma> av) = as_epoch as \<or> ar_InUse (recs \<sigma> av)"
    using uniq cur by auto
  have keep: "map_of (ap_Addresses pv') a = Some r"
    using sweepAddresses_target [OF sa c] slot by simp
  have alive: "ap_epoch pv' = as_epoch as"
    using sweepAddresses_alive [OF sa mem cur] .
  have "as_Pools as1 = AList.update k pv' (as_Pools as)"
    using st sa True alive by (auto simp: sweepPool_def)
  then show ?thesis using keep by (simp add: lookupAddr_def update_conv')
qed

lemma sweepPools_current:
  assumes "sweepPools ps (\<sigma>, as) = (\<sigma>1, as1)"
    and "distinct (map fst ps)"
    and "\<forall>(k, p) \<in> set ps. map_of (as_Pools as) k = Some p"
    and "\<forall>p. (pk, p) \<in> set ps \<longrightarrow> distinct (map fst (ap_Addresses p))"
    and "lookupAddr as pk a = Some r"
    and "ar_epoch (recs \<sigma> r) = as_epoch as"
  shows "lookupAddr as1 pk a = Some r \<and> recs \<sigma>1 r = recs \<sigma> r"
  using assms
proof (induction ps arbitrary: \<sigma> as)
  case Nil
  then show ?case by simp
next
  case (Cons y ps)
  obtain k p where y: "y = (k, p)" by (cases y)
  obtain \<sigma>' as' where st: "sweepPool k p (\<sigma>, as) = (\<sigma>', as')"
    by (cases "sweepPool k p (\<sigma>, as)")
  have rest: "sweepPools ps (\<sigma>', as') = (\<sigma>1, as1)"
    using Cons.prems(1) y st by simp
  have ep: "as_epoch as' = as_epoch as" using sweepPool_epoch [OF st] .
  have same: "recs \<sigma>' r = recs \<sigma> r" using sweepPool_confirmed [OF st Cons.prems(6)] .
  have held: "map_of (as_Pools as) k = Some p" using Cons.prems(3) y by simp
  have look: "lookupAddr as' pk a = Some r"
  proof (cases "k = pk")
    case True
    have d: "distinct (map fst (ap_Addresses p))" using Cons.prems(4) y True by simp
    have slot: "map_of (ap_Addresses p) a = Some r"
      using Cons.prems(5) held True by (simp add: lookupAddr_def)
    from sweepPool_current [OF st held d slot Cons.prems(6)] True show ?thesis by simp
  next
    case False
    then have "map_of (as_Pools as') pk = map_of (as_Pools as) pk"
      using sweepPool_props(4) [OF st, of pk] by simp
    then show ?thesis using Cons.prems(5) by (simp add: lookupAddr_def)
  qed
  have c2: "distinct (map fst ps)" using Cons.prems(2) by simp
  have c3: "\<forall>(k', p') \<in> set ps. map_of (as_Pools as') k' = Some p'"
  proof (clarify)
    fix k' p' assume i: "(k', p') \<in> set ps"
    then have "k' \<noteq> k" using Cons.prems(2) y by force
    then have "map_of (as_Pools as') k' = map_of (as_Pools as) k'"
      using sweepPool_props(4) [OF st, of k'] by simp
    then show "map_of (as_Pools as') k' = Some p'" using Cons.prems(3) i by auto
  qed
  have c4: "\<forall>p. (pk, p) \<in> set ps \<longrightarrow> distinct (map fst (ap_Addresses p))"
    using Cons.prems(4) by simp
  have c6: "ar_epoch (recs \<sigma>' r) = as_epoch as'" using same ep Cons.prems(6) by simp
  from Cons.IH [OF rest c2 c3 c4 look c6] same show ?case by simp
qed

text \<open>Both loops: a record of a snapshot pool whose key the live space holds.\<close>

lemma merge_stamps_record:
  assumes keys: "distinct (map fst (as_Pools as))"
    and nkeys: "distinct (map fst (as_Pools newas))"
    and pmem: "(pk, pv) \<in> set (as_Pools newas)"
    and live: "map_of (as_Pools as) pk = Some ap"
    and adist: "distinct (map fst (ap_Addresses ap))"
    and vdist: "distinct (map fst (ap_Addresses pv))"
    and mem: "(ak, av) \<in> set (ap_Addresses pv)"
    and lo: "minInt \<le> as_epoch as" and hi: "as_epoch as < maxInt"
    and m: "merge \<sigma> as newas = (\<sigma>1, as1, newas1)"
  shows "as_epoch as1 = as_epoch as + 1"
    and "lookupAddr as1 pk ak = Some (case lookupAddr as pk ak of None \<Rightarrow> av | Some r0 \<Rightarrow> r0)"
    and "ar_epoch (recs \<sigma>1 (case lookupAddr as pk ak of None \<Rightarrow> av | Some r0 \<Rightarrow> r0)) = as_epoch as1"
    and "lookupAddr as pk ak = Some r0 \<Longrightarrow> \<not> ar_unhealthy (recs \<sigma>1 r0)"
proof -
  define e where "e = as_epoch as + 1"
  define t where "t = (case lookupAddr as pk ak of None \<Rightarrow> av | Some r0 \<Rightarrow> r0)"
  obtain \<sigma>a asa newasa u where
    p1: "mergePools e (as_Pools newas) (\<sigma>, as, newas, False) = (\<sigma>a, asa, newasa, u)"
    by (cases "mergePools e (as_Pools newas) (\<sigma>, as, newas, False)")
  have "ap_Addresses pv \<noteq> []" using mem by auto
  then have "list_ex (\<lambda>(pk, pv). map_of (as_Pools as) pk = None \<or> ap_Addresses pv \<noteq> []) (as_Pools newas)"
    using pmem by (auto simp: list_ex_iff)
  then have u: "u" and ea: "as_epoch asa = as_epoch as"
    using mergePools_epoch [OF p1] by simp_all
  define as2 where "as2 = asa\<lparr> as_epoch := e \<rparr>"
  obtain \<sigma>b asb where p2: "sweepPools (as_Pools as2) (\<sigma>a, as2) = (\<sigma>b, asb)"
    by (cases "sweepPools (as_Pools as2) (\<sigma>a, as2)")
  have "merge \<sigma> as newas = (\<sigma>b, asb, newasa)"
    using p1 p2 u by (simp add: merge_def Let_def e_def as2_def wrapInt_succ [OF lo hi])
  with m have s1: "\<sigma>1 = \<sigma>b" and a1: "as1 = asb" by simp_all
  have eb: "as_epoch asb = e" using sweepPools_epoch [OF p2] by (simp add: as2_def)
  note s = mergePools_stamp [OF p1 nkeys pmem live vdist mem]
  have la: "lookupAddr as2 pk ak = Some t" using s(1) by (simp add: t_def lookupAddr_def as2_def)
  have ta: "ar_epoch (recs \<sigma>a t) = as_epoch as2" using s(2) by (simp add: t_def as2_def)
  have keys2: "distinct (map fst (as_Pools as2))"
    using mergePools_other [OF p1, of pk] keys by (simp add: as2_def)
  have c3: "\<forall>(k, p) \<in> set (as_Pools as2). map_of (as_Pools as2) k = Some p"
    using keys2 by auto
  from mergePools_pool [OF p1 live] obtain pa where
    pa: "map_of (as_Pools asa) pk = Some pa" "distinct (map fst (ap_Addresses pa))"
    using adist by blast
  have c4: "\<forall>p. (pk, p) \<in> set (as_Pools as2) \<longrightarrow> distinct (map fst (ap_Addresses p))"
  proof (intro allI impI)
    fix p assume "(pk, p) \<in> set (as_Pools as2)"
    then have "map_of (as_Pools asa) pk = Some p" using keys2 by (simp add: as2_def)
    with pa show "distinct (map fst (ap_Addresses p))" by simp
  qed
  note f = sweepPools_current [OF p2 keys2 c3 c4 la ta]
  show "as_epoch as1 = as_epoch as + 1" using a1 eb by (simp add: e_def)
  show "lookupAddr as1 pk ak = Some (case lookupAddr as pk ak of None \<Rightarrow> av | Some r0 \<Rightarrow> r0)"
    using f a1 by (simp add: t_def)
  show "ar_epoch (recs \<sigma>1 (case lookupAddr as pk ak of None \<Rightarrow> av | Some r0 \<Rightarrow> r0)) = as_epoch as1"
    using f ta s1 a1 eb by (simp add: t_def as2_def)
  show "lookupAddr as pk ak = Some r0 \<Longrightarrow> \<not> ar_unhealthy (recs \<sigma>1 r0)"
  proof -
    assume h: "lookupAddr as pk ak = Some r0"
    then have "t = r0" by (simp add: t_def)
    with s(3) [OF h] f s1 show ?thesis by simp
  qed
qed

lemma merge_snapshotMerged:
  assumes wf: "uniqueKeys as" and nwf: "uniqueKeys newas"
    and lo: "minInt \<le> as_epoch as" and hi: "as_epoch as < maxInt"
    and m: "merge \<sigma> as newas = (\<sigma>1, as1, newas1)"
  shows "snapshotMerged as newas \<sigma>1 as1"
proof -
  have keys: "distinct (map fst (as_Pools as))" and nkeys: "distinct (map fst (as_Pools newas))"
    using wf nwf by (simp_all add: uniqueKeys_def)
  have pool: "poolAdopted as as1 pk pv"
    if pmem: "(pk, pv) \<in> set (as_Pools newas)" and None: "map_of (as_Pools as) pk = None" for pk pv
  proof -
    have mem: "map_of (as_Pools newas) pk = Some pv" using pmem nkeys by simp
    from merge_adopts_pool [OF keys None nkeys mem lo hi, of \<sigma>] m
    show ?thesis using None by (auto simp: poolAdopted_def)
  qed
  have one: "recordAdopted as \<sigma>1 as1 pk ak av \<or> recordReconfirmed as \<sigma>1 as1 pk ak"
    if pmem: "(pk, pv) \<in> set (as_Pools newas)" and live: "map_of (as_Pools as) pk = Some ap"
      and mem: "(ak, av) \<in> set (ap_Addresses pv)" for pk pv ap ak av
  proof -
    have adist: "distinct (map fst (ap_Addresses ap))"
      using wf map_of_SomeD [OF live] by (auto simp: uniqueKeys_def list_all_iff)
    have vdist: "distinct (map fst (ap_Addresses pv))"
      using nwf pmem by (auto simp: uniqueKeys_def list_all_iff)
    note s = merge_stamps_record(2,3) [OF keys nkeys pmem live adist vdist mem lo hi m]
    show ?thesis
    proof (cases "lookupAddr as pk ak")
      case None
      have "recordAdopted as \<sigma>1 as1 pk ak av"
        using s None live by (simp add: recordAdopted_def)
      then show ?thesis by simp
    next
      case (Some r0)
      note h = merge_stamps_record(4) [OF keys nkeys pmem live adist vdist mem lo hi m Some]
      have "recordReconfirmed as \<sigma>1 as1 pk ak"
        using s h Some by (simp add: recordReconfirmed_def)
      then show ?thesis by simp
    qed
  qed
  have each: "(if map_of (as_Pools as) pk = None then poolAdopted as as1 pk pv
         else list_all (\<lambda>(ak, av). recordAdopted as \<sigma>1 as1 pk ak av \<or> recordReconfirmed as \<sigma>1 as1 pk ak)
                (ap_Addresses pv))"
    if pmem: "(pk, pv) \<in> set (as_Pools newas)" for pk pv
  proof (cases "map_of (as_Pools as) pk")
    case None
    with pool [OF pmem None] show ?thesis by simp
  next
    case (Some ap)
    have "\<forall>x \<in> set (ap_Addresses pv). case x of (ak, av) \<Rightarrow>
            recordAdopted as \<sigma>1 as1 pk ak av \<or> recordReconfirmed as \<sigma>1 as1 pk ak"
      using one [OF pmem Some] by auto
    then show ?thesis using Some by (simp add: list_all_iff)
  qed
  have "\<forall>x \<in> set (as_Pools newas). case x of (pk, pv) \<Rightarrow>
         (if map_of (as_Pools as) pk = None then poolAdopted as as1 pk pv
          else list_all (\<lambda>(ak, av). recordAdopted as \<sigma>1 as1 pk ak av \<or> recordReconfirmed as \<sigma>1 as1 pk ak)
                (ap_Addresses pv))"
    using each by auto
  then show ?thesis
    unfolding snapshotMerged_def by (subst list_all_iff)
qed

lemma adopted_imp_input:
  assumes "adoptedOrReconfirmed as newas \<sigma>1 as1"
  shows "adoptsOrReconfirms as newas"
proof -
  from assms obtain pk pv where pmem: "(pk, pv) \<in> set (as_Pools newas)"
    and d: "poolAdopted as as1 pk pv \<or>
       list_ex (\<lambda>(ak, av). recordAdopted as \<sigma>1 as1 pk ak av \<or> recordReconfirmed as \<sigma>1 as1 pk ak)
         (ap_Addresses pv)"
    by (auto simp: adoptedOrReconfirmed_def list_ex_iff)
  have "map_of (as_Pools as) pk = None \<or> ap_Addresses pv \<noteq> []"
    using d by (auto simp: poolAdopted_def list_ex_iff)
  with pmem show ?thesis
    unfolding adoptsOrReconfirms_def list_ex_iff by (intro bexI [of _ "(pk, pv)"]) simp_all
qed

lemma merged_imp_adopted:
  assumes "snapshotMerged as newas \<sigma>1 as1" and "adoptsOrReconfirms as newas"
  shows "adoptedOrReconfirmed as newas \<sigma>1 as1"
proof -
  from assms(2) obtain pk pv where pmem: "(pk, pv) \<in> set (as_Pools newas)"
    and c: "map_of (as_Pools as) pk = None \<or> ap_Addresses pv \<noteq> []"
    by (auto simp: adoptsOrReconfirms_def list_ex_iff)
  from assms(1) pmem have d: "(if map_of (as_Pools as) pk = None then poolAdopted as as1 pk pv
       else list_all (\<lambda>(ak, av). recordAdopted as \<sigma>1 as1 pk ak av \<or> recordReconfirmed as \<sigma>1 as1 pk ak)
         (ap_Addresses pv))"
    by (auto simp: snapshotMerged_def list_all_iff [of _ "as_Pools newas"])
  have "poolAdopted as as1 pk pv \<or>
       list_ex (\<lambda>(ak, av). recordAdopted as \<sigma>1 as1 pk ak av \<or> recordReconfirmed as \<sigma>1 as1 pk ak)
         (ap_Addresses pv)"
  proof (cases "map_of (as_Pools as) pk = None")
    case True
    with d show ?thesis by simp
  next
    case False
    with c obtain x xs where ne: "ap_Addresses pv = x # xs" by (cases "ap_Addresses pv") auto
    from False d have "list_all (\<lambda>(ak, av). recordAdopted as \<sigma>1 as1 pk ak av \<or> recordReconfirmed as \<sigma>1 as1 pk ak)
         (ap_Addresses pv)" by simp
    with ne show ?thesis by (cases x) auto
  qed
  with pmem show ?thesis
    unfolding adoptedOrReconfirmed_def list_ex_iff by (intro bexI [of _ "(pk, pv)"]) simp_all
qed

text \<open>
  At the largest \<^verbatim>\<open>int\<close> the sum wraps around: a merge that adopts or reconfirms
  something takes the epoch from \<open>maxInt\<close> to \<open>minInt\<close>.
\<close>

lemma merge_epoch_wraps:
  assumes "as_epoch as = maxInt" and "adoptsOrReconfirms as newas"
  shows "as_epoch (fst (snd (merge \<sigma> as newas))) = minInt"
proof -
  obtain \<sigma>1 as1 newas1 where m: "merge \<sigma> as newas = (\<sigma>1, as1, newas1)"
    by (cases "merge \<sigma> as newas")
  from merge_epoch [OF m] assms show ?thesis by (simp add: m wrapInt_max)
qed

text \<open>
  C2. For a live space and a snapshot with unique keys, and an epoch of the live space
  below the largest \<^verbatim>\<open>int\<close> (where \<^verbatim>\<open>as.epoch + 1\<close> does not wrap around): the merge
  leaves the epoch of the live space as it is or adds one to it, and the epoch grows
  exactly when some pool or record of the snapshot has been adopted or reconfirmed, as
  the state after the merge shows it. Whatever the epoch does, every pool of the
  snapshot that the live space lacked has been adopted, and every record of its other
  pools has been adopted or reconfirmed. The other operations on a space
  (\<^verbatim>\<open>newAddressPool\<close>, \<^verbatim>\<open>getPool\<close>, \<^verbatim>\<open>requestPool\<close>, \<^verbatim>\<open>releasePool\<close>) leave the
  epoch as it is; the operations on a pool (\<^verbatim>\<open>newAddressRecord\<close>,
  \<^verbatim>\<open>populateIPAddresses\<close>, \<^verbatim>\<open>requestAddress\<close>, \<^verbatim>\<open>releaseAddress\<close>) write no field of
  the space and return none. So no operation lowers the epoch.
\<close>

theorem epoch_monotone:
  assumes wf: "uniqueKeys as" and nwf: "uniqueKeys newas"
    and lo: "minInt \<le> as_epoch as" and hi: "as_epoch as < maxInt"
  shows "\<exists>\<sigma>1 as1 newas1.
      merge \<sigma> as newas = (\<sigma>1, as1, newas1) \<and>
      (as_epoch as1 = as_epoch as \<or> as_epoch as1 = as_epoch as + 1) \<and>
      (as_epoch as < as_epoch as1 \<longleftrightarrow> adoptedOrReconfirmed as newas \<sigma>1 as1) \<and>
      snapshotMerged as newas \<sigma>1 as1 \<and>
      as_epoch (fst (newAddressPool as ifName nwName priority subnet)) = as_epoch as \<and>
      (\<forall>\<sigma>2 as2 ap err. getPool \<sigma> as poolId options = Some (\<sigma>2, as2, ap, err)
          \<longrightarrow> as_epoch as2 = as_epoch as) \<and>
      (\<forall>\<sigma>2 as2 res. requestPool \<sigma> as poolId sub options v6 = Some (\<sigma>2, as2, res)
          \<longrightarrow> as_epoch as2 = as_epoch as) \<and>
      as_epoch (fst (releasePool as poolId)) = as_epoch as"
proof -
  obtain \<sigma>1 as1 newas1 where m: "merge \<sigma> as newas = (\<sigma>1, as1, newas1)"
    by (cases "merge \<sigma> as newas")
  have e: "as_epoch as1 = (if adoptsOrReconfirms as newas then as_epoch as + 1 else as_epoch as)"
    using merge_epoch [OF m] by (simp add: wrapInt_succ [OF lo hi])
  note all = merge_snapshotMerged [OF wf nwf lo hi m]
  have iff: "as_epoch as < as_epoch as1 \<longleftrightarrow> adoptedOrReconfirmed as newas \<sigma>1 as1"
    using e merged_imp_adopted [OF all] adopted_imp_input [of as newas \<sigma>1 as1] by auto
  have c2: "as_epoch as1 = as_epoch as \<or> as_epoch as1 = as_epoch as + 1" using e by simp
  have c6: "\<forall>\<sigma>2 as2 ap err. getPool \<sigma> as poolId options = Some (\<sigma>2, as2, ap, err)
          \<longrightarrow> as_epoch as2 = as_epoch as"
    using getPool_epoch by blast
  have c7: "\<forall>\<sigma>2 as2 res. requestPool \<sigma> as poolId sub options v6 = Some (\<sigma>2, as2, res)
          \<longrightarrow> as_epoch as2 = as_epoch as"
    using requestPool_epoch by blast
  show ?thesis
    apply (rule exI [of _ \<sigma>1], rule exI [of _ as1], rule exI [of _ newas1])
    apply (intro conjI)
           apply (rule m)
          apply (rule c2)
         apply (rule iff)
        apply (rule all)
       apply (rule newAddressPool_epoch)
      apply (rule c6)
     apply (rule c7)
    apply (rule releasePool_epoch)
    done
qed
theorem epoch_monotone_witness:
  "\<exists>\<sigma>1 as1 newas1.
      merge mergeStore liveSpace snapshot = (\<sigma>1, as1, newas1) \<and>
      as_epoch liveSpace = 0 \<and> as_epoch as1 = 1 \<and>
      adoptedOrReconfirmed liveSpace snapshot \<sigma>1 as1 \<and>
      snapshotMerged liveSpace snapshot \<sigma>1 as1 \<and>
      as_epoch (fst (releasePool liveSpace ''10.0.0.0/24'')) = 0"
proof -
  have wf: "uniqueKeys liveSpace" and nwf: "uniqueKeys snapshot"
    and lo: "minInt \<le> as_epoch liveSpace" and hi: "as_epoch liveSpace < maxInt"
    and e0: "as_epoch liveSpace = 0"
    by (simp_all add: uniqueKeys_def merge_example_defs example_defs minInt_def maxInt_def)
  from epoch_monotone [OF wf nwf lo hi, of mergeStore "''''" "''''" 0 net10_0 "''10.0.0.0/24''" None "''''" False]
  obtain \<sigma>1 as1 newas1 where
    m: "merge mergeStore liveSpace snapshot = (\<sigma>1, as1, newas1)"
    and c: "as_epoch as1 = as_epoch liveSpace \<or> as_epoch as1 = as_epoch liveSpace + 1"
    and i: "as_epoch liveSpace < as_epoch as1 \<longleftrightarrow> adoptedOrReconfirmed liveSpace snapshot \<sigma>1 as1"
    and a: "snapshotMerged liveSpace snapshot \<sigma>1 as1"
    and r: "as_epoch (fst (releasePool liveSpace ''10.0.0.0/24'')) = as_epoch liveSpace"
    by blast
  have "adoptedOrReconfirmed liveSpace snapshot \<sigma>1 as1"
    using merged_imp_adopted [OF a adopts_example] .
  with m c i a r e0 show ?thesis by auto
qed

end
